theory Spec2Isabelle
  imports Main "HOL-Library.Word"
begin

unbundle bit_operations_syntax

chapter \<open>Nayuki++ FLAC library: bit-level I/O, metadata codecs, Rice decoder\<close>

text \<open>
  A shallow embedding of the C++ sources
  \<^verbatim>\<open>decode/AbstractFlacLowLevelInput.cpp\<close>, \<^verbatim>\<open>decode/ByteArrayFlacInput.cpp\<close>,
  \<^verbatim>\<open>encode/BitOutputStream.cpp\<close>, \<^verbatim>\<open>common/Utilities.h\<close>, \<^verbatim>\<open>common/StreamInfo.cpp\<close>,
  \<^verbatim>\<open>common/SeekTable.cpp\<close> and \<^verbatim>\<open>common/FrameInfo.cpp\<close>.

  \<^bold>\<open>Integer model.\<close> The sources use the \<^verbatim>\<open>fast\<close> integer typedefs. They are modelled at
  their nominal widths: \<^verbatim>\<open>uint_fast8_t\<close> is \<^typ>\<open>8 word\<close>, \<^verbatim>\<open>uint_fast16_t\<close> is
  \<^typ>\<open>16 word\<close>, \<^verbatim>\<open>uint_fast32_t\<close> and \<^verbatim>\<open>int_fast32_t\<close> are \<^typ>\<open>32 word\<close>,
  \<^verbatim>\<open>uint_fast64_t\<close> and \<^verbatim>\<open>int_fast64_t\<close> are \<^typ>\<open>64 word\<close>; \<^verbatim>\<open>int\<close> has 32 bits and
  \<^verbatim>\<open>long\<close> has 64 bits. This is the data model in which the two overloads of
  \<^verbatim>\<open>numberOfLeadingZeros\<close> (on \<^verbatim>\<open>uint_fast32_t\<close> and on \<^verbatim>\<open>uint_fast64_t\<close>) are distinct
  functions and in which \<^verbatim>\<open>1UL << (53 - param)\<close> is a 64-bit shift. Signed values are words
  read with \<^const>\<open>sint\<close>; a right shift of a signed value is \<^const>\<open>signed_drop_bit\<close>, a right shift
  of an unsigned value is \<^const>\<open>drop_bit\<close>; the integral promotions of C++ are written out with
  \<^const>\<open>ucast\<close> and \<^const>\<open>scast\<close>. Counters and indices which the code keeps inside a small
  range (bit counts in \<open>[0, 64]\<close>, buffer indices in \<open>[0, 4096]\<close>) are \<^typ>\<open>nat\<close> or \<^typ>\<open>int\<close>.

  The widths of the \<^verbatim>\<open>fast\<close> typedefs are lower bounds only, and three places do not fix
  them. The data fields of type \<^verbatim>\<open>uint_fast16_t\<close> (the two block sizes of a stream info,
  \<^verbatim>\<open>frameSamples\<close> of a seek point) are of type \<^typ>\<open>nat\<close>: the code copies, compares and
  right-shifts them and nothing else, so an implementation with a \<^verbatim>\<open>uint_fast16_t\<close> of \<open>w\<close> bits
  (16, 32 and 64 are all in use) is the records whose fields are below \<open>2\<^sup>w\<close>, and a
  statement for all natural numbers holds on each of them. In the parsing constructor of
  \<^verbatim>\<open>StreamInfo\<close> the width of \<^verbatim>\<open>long\<close> is a parameter. The accumulators of the writer,
  \<^verbatim>\<open>crc8\<close> of type \<^verbatim>\<open>uint_fast8_t\<close> and \<^verbatim>\<open>crc16\<close> of type \<^verbatim>\<open>uint_fast16_t\<close>, are taken at
  8 and 16 bits; what is said of \<^verbatim>\<open>crc16\<close> there holds for a field of that width.

  \<^bold>\<open>Memory.\<close> An array obtained from \<^verbatim>\<open>new T[n]\<close> has \<open>n\<close> elements of no specified value
  until they are written. Where the code reads such an element, what the allocation left is
  a parameter of the model.

  \<^bold>\<open>Failures.\<close> Every \<^verbatim>\<open>throw\<close> is a value of type \<open>error\<close>, carrying the exception class and
  its message; a failing \<^verbatim>\<open>assert\<close> is \<open>AssertionFailed\<close> (the build files do not define
  \<^verbatim>\<open>NDEBUG\<close>); an access outside an array is \<open>OutOfBounds\<close>.
\<close>

section \<open>Failures\<close>

datatype error =
    InvalidArgument string
  | RuntimeError string
  | DataFormatException string
  | AssertionFailed
  | OutOfBounds

section \<open>\<^verbatim>\<open>common/Utilities.h\<close>\<close>

text \<open>
  \<^verbatim>\<open>numberOfLeadingZeros(uint_fast32_t i)\<close>. The counter \<^verbatim>\<open>n\<close> is an \<^verbatim>\<open>int\<close>; all shifts
  are shifts of the unsigned argument.
\<close>

definition numberOfLeadingZeros32 :: "32 word \<Rightarrow> int" where
  "numberOfLeadingZeros32 i0 =
     (if i0 = 0 then 32
      else
        (let n = (1 :: int); i = i0;
             (n, i) = (if drop_bit 16 i = 0 then (n + 16, push_bit 16 i) else (n, i));
             (n, i) = (if drop_bit 24 i = 0 then (n + 8, push_bit 8 i) else (n, i));
             (n, i) = (if drop_bit 28 i = 0 then (n + 4, push_bit 4 i) else (n, i));
             (n, i) = (if drop_bit 30 i = 0 then (n + 2, push_bit 2 i) else (n, i))
         in n - uint (drop_bit 31 i)))"

text \<open>
  \<^verbatim>\<open>numberOfLeadingZeros(uint_fast64_t i)\<close>. Here the working variable is
  \<^verbatim>\<open>int x = (int)(i >> 32)\<close>, a signed 32-bit value: every \<^verbatim>\<open>x >> k\<close> is an arithmetic shift
  (\<^const>\<open>signed_drop_bit\<close>), and the last statement \<^verbatim>\<open>n -= x >> 31\<close> subtracts \<open>0\<close> or
  \<open>-1\<close>.
\<close>

definition numberOfLeadingZeros64 :: "64 word \<Rightarrow> int" where
  "numberOfLeadingZeros64 i =
     (if i = 0 then 64
      else
        (let n = (1 :: int); x = (ucast (drop_bit 32 i) :: 32 word);
             (n, x) = (if x = 0 then (n + 32, (ucast i :: 32 word)) else (n, x));
             (n, x) = (if signed_drop_bit 16 x = 0 then (n + 16, push_bit 16 x) else (n, x));
             (n, x) = (if signed_drop_bit 24 x = 0 then (n + 8, push_bit 8 x) else (n, x));
             (n, x) = (if signed_drop_bit 28 x = 0 then (n + 4, push_bit 4 x) else (n, x));
             (n, x) = (if signed_drop_bit 30 x = 0 then (n + 2, push_bit 2 x) else (n, x))
         in n - sint (signed_drop_bit 31 x)))"

section \<open>\<^verbatim>\<open>encode/BitOutputStream\<close>: the bit-level writer\<close>

text \<open>
  The fields of \<^verbatim>\<open>BitOutputStream\<close>. \<open>out\<close> is the sequence of bytes handed to the underlying
  \<^verbatim>\<open>std::ostream\<close> so far, oldest first. The fields \<^verbatim>\<open>bitBuffer\<close>, \<^verbatim>\<open>bitBufferLen\<close>,
  \<^verbatim>\<open>crc8\<close> and \<^verbatim>\<open>crc16\<close> carry the prefix \<open>w\<close> because the reader has fields of the same
  names. \<^verbatim>\<open>crc8\<close> is declared \<^verbatim>\<open>uint_fast8_t\<close> and \<^verbatim>\<open>crc16\<close> is declared
  \<^verbatim>\<open>uint_fast16_t\<close>.
\<close>

record BitOutputStream =
  out :: "8 word list"
  wBitBuffer :: "64 word"
  wBitBufferLen :: nat
  byteCount :: "64 word"
  wCrc8 :: "8 word"
  wCrc16 :: "16 word"

text \<open>
  One round of the inner loop of \<^verbatim>\<open>flush\<close>:
  \<^verbatim>\<open>crc8 <<= 1; crc16 <<= 1; crc8 ^= (crc8 >> 8) * 0x107; crc16 ^= (crc16 >> 16) * 0x18005;\<close>
  followed by the two assertions. Each operand is promoted to \<^verbatim>\<open>int\<close>, and each compound
  assignment converts the result back to the type of the field.
\<close>

definition crcShift :: "8 word \<times> 16 word \<Rightarrow> error + (8 word \<times> 16 word)" where
  "crcShift c =
     (let c8a = (ucast (push_bit 1 (ucast (fst c) :: 32 word)) :: 8 word);
          c16a = (ucast (push_bit 1 (ucast (snd c) :: 32 word)) :: 16 word);
          c8b = (ucast ((ucast c8a :: 32 word) XOR drop_bit 8 (ucast c8a :: 32 word) * 0x107) :: 8 word);
          c16b = (ucast ((ucast c16a :: 32 word) XOR drop_bit 16 (ucast c16a :: 32 word) * 0x18005) :: 16 word)
      in if drop_bit 8 (ucast c8b :: 32 word) \<noteq> 0 then Inl AssertionFailed
         else if drop_bit 16 (ucast c16b :: 32 word) \<noteq> 0 then Inl AssertionFailed
         else Inr (c8b, c16b))"

fun crcShifts :: "nat \<Rightarrow> 8 word \<times> 16 word \<Rightarrow> error + (8 word \<times> 16 word)" where
  "crcShifts 0 c = Inr c"
| "crcShifts (Suc k) c = (case crcShift c of Inl e \<Rightarrow> Inl e | Inr c' \<Rightarrow> crcShifts k c')"

text \<open>The \<^verbatim>\<open>while (bitBufferLen >= 8)\<close> loop of \<^verbatim>\<open>flush\<close>.\<close>

function flush_loop :: "BitOutputStream \<Rightarrow> error + BitOutputStream" where
  "flush_loop s =
     (if wBitBufferLen s \<ge> 8 then
        (let len = wBitBufferLen s - 8;
             b = (ucast (drop_bit len (wBitBuffer s) AND 0xFF) :: 8 word);
             c8 = wCrc8 s XOR b;
             c16 = (ucast ((ucast (wCrc16 s) :: 32 word) XOR push_bit 8 (ucast b :: 32 word)) :: 16 word)
         in case crcShifts 8 (c8, c16) of
              Inl e \<Rightarrow> Inl e
            | Inr c \<Rightarrow> flush_loop (s\<lparr>out := out s @ [b], wBitBufferLen := len,
                                      byteCount := byteCount s + 1, wCrc8 := fst c, wCrc16 := snd c\<rparr>))
      else Inr s)"
  by pat_completeness auto
termination
  by (relation "measure wBitBufferLen") auto

declare flush_loop.simps [simp del]

definition flush :: "BitOutputStream \<Rightarrow> error + BitOutputStream" where
  "flush s =
     (case flush_loop s of
        Inl e \<Rightarrow> Inl e
      | Inr s' \<Rightarrow> if wBitBufferLen s' \<le> 64 then Inr s' else Inl AssertionFailed)"

definition checkByteAlignedW :: "BitOutputStream \<Rightarrow> error + unit" where
  "checkByteAlignedW s =
     (if wBitBufferLen s mod 8 \<noteq> 0 then Inl (RuntimeError ''Not a byte boundary'') else Inr ())"

text \<open>
  \<^verbatim>\<open>writeInt(int_fast8_t n, int_fast32_t val)\<close>. In \<^verbatim>\<open>val & ((1L << n) - 1)\<close> the value is
  converted to \<^verbatim>\<open>long\<close> (sign extension) and the mask is a \<^verbatim>\<open>long\<close>.
\<close>

definition writeInt :: "int \<Rightarrow> 32 word \<Rightarrow> BitOutputStream \<Rightarrow> error + BitOutputStream" where
  "writeInt n val s =
     (if n < 0 \<or> n > 32 then Inl (InvalidArgument ''n has to be between 0 and 32 (inclusive)'')
      else
        case (if int (wBitBufferLen s) + n > 64 then
                (case flush s of
                   Inl e \<Rightarrow> Inl e
                 | Inr s' \<Rightarrow> if int (wBitBufferLen s') + n \<le> 64 then Inr s' else Inl AssertionFailed)
              else Inr s) of
          Inl e \<Rightarrow> Inl e
        | Inr s1 \<Rightarrow>
            (let bb = push_bit (nat n) (wBitBuffer s1)
                        OR ((scast val :: 64 word) AND (push_bit (nat n) 1 - 1));
                 len = wBitBufferLen s1 + nat n
             in if len \<le> 64 then Inr (s1\<lparr>wBitBuffer := bb, wBitBufferLen := len\<rparr>)
                else Inl AssertionFailed))"

text \<open>A straight-line sequence of \<^verbatim>\<open>writeInt\<close> calls; the first failure ends it.\<close>

fun writeInts :: "(int \<times> 32 word) list \<Rightarrow> BitOutputStream \<Rightarrow> error + BitOutputStream" where
  "writeInts [] s = Inr s"
| "writeInts (nv # rest) s =
     (case writeInt (fst nv) (snd nv) s of Inl e \<Rightarrow> Inl e | Inr s' \<Rightarrow> writeInts rest s')"

text \<open>
  The same sequence for a caller that keeps the stream when the sequence throws: with the
  failure comes the stream as the failing call found it. \<^verbatim>\<open>writeInt\<close> throws its one
  exception before it changes a field; on a failed assertion the program ends, and the stream
  given is the one the last completed call left.
\<close>

fun writeIntsE ::
  "(int \<times> 32 word) list \<Rightarrow> BitOutputStream \<Rightarrow> error \<times> BitOutputStream + BitOutputStream" where
  "writeIntsE [] s = Inr s"
| "writeIntsE (nv # rest) s =
     (case writeInt (fst nv) (snd nv) s of Inl e \<Rightarrow> Inl (e, s) | Inr s' \<Rightarrow> writeIntsE rest s')"

definition alignToByte :: "BitOutputStream \<Rightarrow> error + BitOutputStream" where
  "alignToByte s = writeInt ((64 - int (wBitBufferLen s)) mod 8) 0 s"

definition resetCrcsW :: "BitOutputStream \<Rightarrow> error + BitOutputStream" where
  "resetCrcsW s =
     (case flush s of Inl e \<Rightarrow> Inl e | Inr s' \<Rightarrow> Inr (s'\<lparr>wCrc8 := 0, wCrc16 := 0\<rparr>))"

text \<open>
  \<^verbatim>\<open>getCrc8\<close> and \<^verbatim>\<open>getCrc16\<close> of the writer, with their assertions
  \<^verbatim>\<open>assert((crc8 >> 8) != 0)\<close> and \<^verbatim>\<open>assert((crc16 >> 16) != 0)\<close> as they are written.
\<close>

definition getCrc8W :: "BitOutputStream \<Rightarrow> error + (8 word \<times> BitOutputStream)" where
  "getCrc8W s =
     (case checkByteAlignedW s of
        Inl e \<Rightarrow> Inl e
      | Inr _ \<Rightarrow>
          (case flush s of
             Inl e \<Rightarrow> Inl e
           | Inr s' \<Rightarrow>
               if drop_bit 8 (ucast (wCrc8 s') :: 32 word) \<noteq> 0 then Inr (wCrc8 s', s')
               else Inl AssertionFailed))"

definition getCrc16W :: "BitOutputStream \<Rightarrow> error + (16 word \<times> BitOutputStream)" where
  "getCrc16W s =
     (case checkByteAlignedW s of
        Inl e \<Rightarrow> Inl e
      | Inr _ \<Rightarrow>
          (case flush s of
             Inl e \<Rightarrow> Inl e
           | Inr s' \<Rightarrow>
               if drop_bit 16 (ucast (wCrc16 s') :: 32 word) \<noteq> 0 then Inr (wCrc16 s', s')
               else Inl AssertionFailed))"

definition getByteCount :: "BitOutputStream \<Rightarrow> 64 word" where
  "getByteCount s = byteCount s + of_nat (wBitBufferLen s div 8)"

text \<open>
  The constructor: empty bit buffer, no byte written, then \<^verbatim>\<open>resetCrcs()\<close>, whose \<^verbatim>\<open>flush\<close>
  finds nothing to write.
\<close>

definition newBitOutputStream :: BitOutputStream where
  "newBitOutputStream =
     \<lparr>out = [], wBitBuffer = 0, wBitBufferLen = 0, byteCount = 0, wCrc8 = 0, wCrc16 = 0\<rparr>"

section \<open>\<^verbatim>\<open>decode/AbstractFlacLowLevelInput\<close> over \<^verbatim>\<open>decode/ByteArrayFlacInput\<close>: the bit-level reader\<close>

subsection \<open>Arrays\<close>

text \<open>Reading element \<open>i\<close> of an array; outside the array there is no defined result.\<close>

definition arrayGet :: "'a list \<Rightarrow> int \<Rightarrow> error + 'a" where
  "arrayGet xs i = (if 0 \<le> i \<and> i < int (length xs) then Inr (xs ! nat i) else Inl OutOfBounds)"

subsection \<open>The CRC tables\<close>

text \<open>
  \<^verbatim>\<open>CRC8_TABLE[i]\<close>: \<^verbatim>\<open>temp8 = i\<close>, eight times
  \<^verbatim>\<open>temp8 = (temp8 << 1) ^ ((temp8 >> 7) * 0x107)\<close> on a \<^verbatim>\<open>uint_fast32_t\<close>, then the cast to
  \<^verbatim>\<open>uint_fast8_t\<close>. \<^verbatim>\<open>CRC16_TABLE[i]\<close>: \<^verbatim>\<open>temp16 = i << 8\<close>, eight times
  \<^verbatim>\<open>temp16 = (temp16 << 1) ^ ((temp16 >> 15) * 0x18005)\<close>, then the cast to \<^verbatim>\<open>uint_fast16_t\<close>.
  \<^verbatim>\<open>CRC_TABLE_LEN\<close> is 256.
\<close>

definition crc8TableStep :: "32 word \<Rightarrow> 32 word" where
  "crc8TableStep t = push_bit 1 t XOR drop_bit 7 t * 0x107"

definition crc16TableStep :: "32 word \<Rightarrow> 32 word" where
  "crc16TableStep t = push_bit 1 t XOR drop_bit 15 t * 0x18005"

definition CRC8_TABLE :: "8 word list" where
  "CRC8_TABLE = map (\<lambda>i. ucast ((crc8TableStep ^^ 8) (of_nat i))) [0..<256]"

definition CRC16_TABLE :: "16 word list" where
  "CRC16_TABLE = map (\<lambda>i. ucast ((crc16TableStep ^^ 8) (push_bit 8 (of_nat i)))) [0..<256]"

subsection \<open>State\<close>

text \<open>
  The fields of \<^verbatim>\<open>AbstractFlacLowLevelInput\<close> and of its subclass \<^verbatim>\<open>ByteArrayFlacInput\<close>
  (\<open>data\<close>, whose length is the field \<^verbatim>\<open>length\<close>, and \<open>offset\<close>). \<^verbatim>\<open>crc8\<close> is declared
  \<^verbatim>\<open>uint_fast16_t\<close> and \<^verbatim>\<open>crc16\<close> is declared \<^verbatim>\<open>uint_fast32_t\<close>. \<open>byteBuffer\<close> has
  \<^verbatim>\<open>BUF_SIZE = 4096\<close> elements.
\<close>

record FlacInput =
  data :: "8 word list"
  offset :: nat
  byteBufferStartPos :: "64 word"
  byteBuffer :: "8 word list"
  byteBufferLen :: int
  byteBufferIndex :: int
  bitBuffer :: "64 word"
  bitBufferLen :: nat
  crc8 :: "16 word"
  crc16 :: "32 word"
  crcStartIndex :: int

definition BUF_SIZE :: nat where
  "BUF_SIZE = 4096"

text \<open>
  \<^verbatim>\<open>ByteArrayFlacInput::readUnderlying(buf, off, len)\<close>, called with \<^verbatim>\<open>buf = byteBuffer\<close>,
  \<^verbatim>\<open>off = 0\<close> and \<^verbatim>\<open>len = BUF_SIZE\<close>: copies \<open>n = min (length - offset) len\<close> bytes, or returns
  \<open>-1\<close> when \<open>n = 0\<close>.

  \<^bold>\<open>Assumption.\<close> The reader of this theory is \<^verbatim>\<open>AbstractFlacLowLevelInput\<close> with this function
  as its source of bytes. The headers as they stand do not give a program that reader:
  \<^verbatim>\<open>AbstractFlacLowLevelInput\<close> declares the pure virtual
  \<^verbatim>\<open>readUnderlying(uint_fast8_t buf[], int off, int len)\<close>, and \<^verbatim>\<open>ByteArrayFlacInput\<close>
  declares \<^verbatim>\<open>readUnderlying(uint_fast8_t buf[], uint_fast64_t off, uint_fast64_t len)\<close>, which has
  other parameter types and so overrides nothing; \<^verbatim>\<open>ByteArrayFlacInput\<close> stays abstract and
  \<^verbatim>\<open>new ByteArrayFlacInput(b, len)\<close> is ill-formed. Moreover
  \<^verbatim>\<open>class AbstractFlacLowLevelInput : FlacLowLevelInput\<close> is a private base, so a
  \<^verbatim>\<open>ByteArrayFlacInput *\<close> does not convert to \<^verbatim>\<open>FlacLowLevelInput *\<close>. The function is
  declared \<^verbatim>\<open>virtual\<close> and \<^verbatim>\<open>protected\<close> under the name of the pure virtual one, and the model
  binds it as the override it was written to be. Every statement below that runs the reader is
  a statement about the sources with these two declarations repaired.
\<close>

definition readUnderlyingBytes :: "FlacInput \<Rightarrow> int \<times> FlacInput" where
  "readUnderlyingBytes s =
     (let n = min (length (data s) - offset s) BUF_SIZE in
      if n = 0 then (- 1, s)
      else (int n, s\<lparr>byteBuffer := take n (drop (offset s) (data s)) @ drop n (byteBuffer s),
                     offset := offset s + n\<rparr>))"

definition checkByteAligned :: "FlacInput \<Rightarrow> error + unit" where
  "checkByteAligned s =
     (if bitBufferLen s mod 8 \<noteq> 0 then Inl (RuntimeError ''Not at a byte boundary'') else Inr ())"

subsection \<open>CRC tracking\<close>

text \<open>
  The body of the loop of \<^verbatim>\<open>updateCrcs\<close> for the byte at index \<open>i\<close>:
  \<^verbatim>\<open>b = byteBuffer[i] & 0xFF; crc8 = CRC8_TABLE[crc8 ^ b] & 0xFF;\<close>
  \<^verbatim>\<open>crc16 = CRC16_TABLE[(crc16 >> 8) ^ b] ^ ((crc16 & 0xFF) << 8);\<close> and the two assertions.
\<close>

definition updateCrcs_byte :: "int \<Rightarrow> FlacInput \<Rightarrow> error + FlacInput" where
  "updateCrcs_byte i s =
     (case arrayGet (byteBuffer s) i of
        Inl e \<Rightarrow> Inl e
      | Inr x \<Rightarrow>
          (let b = x AND 0xFF in
           case arrayGet CRC8_TABLE (uint ((ucast (crc8 s) :: 32 word) XOR ucast b)) of
             Inl e \<Rightarrow> Inl e
           | Inr t8 \<Rightarrow>
               (case arrayGet CRC16_TABLE (uint (drop_bit 8 (crc16 s) XOR ucast b)) of
                  Inl e \<Rightarrow> Inl e
                | Inr t16 \<Rightarrow>
                    (let c8 = (ucast (t8 AND 0xFF) :: 16 word);
                         c16 = (ucast t16 :: 32 word) XOR push_bit 8 (crc16 s AND 0xFF)
                     in if drop_bit 8 c8 \<noteq> 0 then Inl AssertionFailed
                        else if drop_bit 16 c16 \<noteq> 0 then Inl AssertionFailed
                        else Inr (s\<lparr>crc8 := c8, crc16 := c16\<rparr>)))))"

function updateCrcs_loop :: "int \<Rightarrow> int \<Rightarrow> FlacInput \<Rightarrow> error + FlacInput" where
  "updateCrcs_loop i end s =
     (if i < end then
        (case updateCrcs_byte i s of Inl e \<Rightarrow> Inl e | Inr s' \<Rightarrow> updateCrcs_loop (i + 1) end s')
      else Inr s)"
  by pat_completeness auto
termination
  by (relation "measure (\<lambda>(i, end, s). nat (end - i))") auto

declare updateCrcs_loop.simps [simp del]

definition updateCrcs :: "int \<Rightarrow> FlacInput \<Rightarrow> error + FlacInput" where
  "updateCrcs unusedTrailingBytes s =
     (let end = byteBufferIndex s - unusedTrailingBytes in
      case updateCrcs_loop (crcStartIndex s) end s of
        Inl e \<Rightarrow> Inl e
      | Inr s' \<Rightarrow> Inr (s'\<lparr>crcStartIndex := end\<rparr>))"

definition resetCrcs :: "FlacInput \<Rightarrow> error + FlacInput" where
  "resetCrcs s =
     (case checkByteAligned s of
        Inl e \<Rightarrow> Inl e
      | Inr _ \<Rightarrow>
          Inr (s\<lparr>crcStartIndex := byteBufferIndex s - int (bitBufferLen s div 8),
                 crc8 := 0, crc16 := 0\<rparr>))"

text \<open>
  \<^verbatim>\<open>getCrc8\<close> and \<^verbatim>\<open>getCrc16\<close> of the reader, with their assertions
  \<^verbatim>\<open>assert((crc8 >> 8) != 0)\<close> and \<^verbatim>\<open>assert((crc16 >> 16) != 0)\<close> as they are written.
\<close>

definition getCrc8 :: "FlacInput \<Rightarrow> error + (8 word \<times> FlacInput)" where
  "getCrc8 s =
     (case checkByteAligned s of
        Inl e \<Rightarrow> Inl e
      | Inr _ \<Rightarrow>
          (case updateCrcs (int (bitBufferLen s div 8)) s of
             Inl e \<Rightarrow> Inl e
           | Inr s' \<Rightarrow>
               if drop_bit 8 (ucast (crc8 s') :: 32 word) \<noteq> 0 then Inr (ucast (crc8 s'), s')
               else Inl AssertionFailed))"

definition getCrc16 :: "FlacInput \<Rightarrow> error + (16 word \<times> FlacInput)" where
  "getCrc16 s =
     (case checkByteAligned s of
        Inl e \<Rightarrow> Inl e
      | Inr _ \<Rightarrow>
          (case updateCrcs (int (bitBufferLen s div 8)) s of
             Inl e \<Rightarrow> Inl e
           | Inr s' \<Rightarrow>
               if drop_bit 16 (crc16 s') \<noteq> 0 then Inr (ucast (crc16 s'), s')
               else Inl AssertionFailed))"

subsection \<open>Reading bytes and bits\<close>

text \<open>
  \<^verbatim>\<open>readUnderlying()\<close>: the next byte of the byte buffer, refilled from the source when it is
  used up, or \<open>-1\<close>.
\<close>

definition readUnderlying :: "FlacInput \<Rightarrow> error + (int \<times> FlacInput)" where
  "readUnderlying s =
     (case (if byteBufferIndex s \<ge> byteBufferLen s then
              (if byteBufferLen s = - 1 then Inr (True, s)
               else
                 (case updateCrcs 0 (s\<lparr>byteBufferStartPos :=
                                          byteBufferStartPos s + word_of_int (byteBufferLen s)\<rparr>) of
                    Inl e \<Rightarrow> Inl e
                  | Inr s1 \<Rightarrow>
                      (let r = readUnderlyingBytes s1;
                           s2 = (snd r)\<lparr>byteBufferLen := fst r, crcStartIndex := 0\<rparr>
                       in if byteBufferLen s2 \<le> 0 then Inr (True, s2)
                          else Inr (False, s2\<lparr>byteBufferIndex := 0\<rparr>))))
            else Inr (False, s)) of
        Inl e \<Rightarrow> Inl e
      | Inr (True, s') \<Rightarrow> Inr (- 1, s')
      | Inr (False, s') \<Rightarrow>
          if \<not> byteBufferIndex s' < byteBufferLen s' then Inl AssertionFailed
          else
            (case arrayGet (byteBuffer s') (byteBufferIndex s') of
               Inl e \<Rightarrow> Inl e
             | Inr x \<Rightarrow> Inr (uint (x AND 0xFF), s'\<lparr>byteBufferIndex := byteBufferIndex s' + 1\<rparr>)))"

text \<open>
  Updating the CRCs changes the two accumulators and \<open>crcStartIndex\<close> only, and
  \<^verbatim>\<open>readUnderlying()\<close> leaves the bit buffer alone.
\<close>

lemma updateCrcs_loop_fields:
  "updateCrcs_loop i e s = Inr s' \<Longrightarrow> \<exists>c8 c16. s' = s\<lparr>crc8 := c8, crc16 := c16\<rparr>"
proof (induction i e s rule: updateCrcs_loop.induct)
  case (1 i e s)
  show ?case
  proof (cases "i < e")
    case False
    then have "s' = s" using "1.prems" by (simp add: updateCrcs_loop.simps)
    then have "s' = s\<lparr>crc8 := crc8 s, crc16 := crc16 s\<rparr>" by simp
    then show ?thesis by blast
  next
    case True
    then obtain s1 where s1: "updateCrcs_byte i s = Inr s1" "updateCrcs_loop (i + 1) e s1 = Inr s'"
      using "1.prems" by (subst (asm) updateCrcs_loop.simps) (auto split: sum.splits)
    obtain a b where ab: "s1 = s\<lparr>crc8 := a, crc16 := b\<rparr>"
      using s1(1) by (auto simp: updateCrcs_byte_def Let_def split: sum.splits if_splits)
    obtain c d where "s' = s1\<lparr>crc8 := c, crc16 := d\<rparr>"
      using "1.IH"[OF True s1(1) s1(2)] by blast
    then have "s' = s\<lparr>crc8 := c, crc16 := d\<rparr>" using ab by simp
    then show ?thesis by blast
  qed
qed

lemma updateCrcs_fields:
  "updateCrcs u s = Inr s' \<Longrightarrow>
     \<exists>c8 c16. s' = s\<lparr>crc8 := c8, crc16 := c16, crcStartIndex := byteBufferIndex s - u\<rparr>"
proof -
  assume a: "updateCrcs u s = Inr s'"
  then obtain s1 where s1: "updateCrcs_loop (crcStartIndex s) (byteBufferIndex s - u) s = Inr s1"
    and s': "s' = s1\<lparr>crcStartIndex := byteBufferIndex s - u\<rparr>"
    by (auto simp: updateCrcs_def Let_def split: sum.splits)
  from updateCrcs_loop_fields[OF s1] obtain a b where "s1 = s\<lparr>crc8 := a, crc16 := b\<rparr>" by blast
  then show ?thesis using s' by auto
qed

lemma readUnderlying_bitBuffer:
  assumes "readUnderlying s = Inr (b, s')"
  shows "bitBufferLen s' = bitBufferLen s \<and> bitBuffer s' = bitBuffer s"
proof (cases "byteBufferIndex s \<ge> byteBufferLen s \<and> byteBufferLen s \<noteq> - 1")
  case False
  then show ?thesis using assms
    by (auto simp: readUnderlying_def split: if_splits sum.splits)
next
  case True
  then obtain s1 where s1:
      "updateCrcs 0 (s\<lparr>byteBufferStartPos := byteBufferStartPos s + word_of_int (byteBufferLen s)\<rparr>) = Inr s1"
    using assms by (auto simp: readUnderlying_def split: sum.splits)
  from updateCrcs_fields[OF s1]
  have "bitBufferLen s1 = bitBufferLen s \<and> bitBuffer s1 = bitBuffer s" by auto
  then show ?thesis using assms True s1
    by (auto simp: readUnderlying_def readUnderlyingBytes_def Let_def split: if_splits sum.splits)
qed

text \<open>The \<^verbatim>\<open>while (bitBufferLen < n)\<close> loop of \<^verbatim>\<open>readUint\<close>.\<close>

function readUint_fill :: "nat \<Rightarrow> FlacInput \<Rightarrow> error + FlacInput" where
  "readUint_fill n s =
     (if bitBufferLen s < n then
        (case readUnderlying s of
           Inl e \<Rightarrow> Inl e
         | Inr (b, s') \<Rightarrow>
             if b = - 1 then Inl (RuntimeError ''End of data'')
             else
               (let s'' = s'\<lparr>bitBuffer := push_bit 8 (bitBuffer s') OR word_of_int b,
                              bitBufferLen := bitBufferLen s' + 8\<rparr>
                in if bitBufferLen s'' \<le> 64 then readUint_fill n s'' else Inl AssertionFailed))
      else Inr s)"
  by pat_completeness auto
termination
proof (relation "measure (\<lambda>(n, s). n - bitBufferLen s)")
  show "wf (measure (\<lambda>(n, s). n - bitBufferLen s))" by simp
next
  fix n s x2 x y xa
  assume a: "bitBufferLen s < n" "readUnderlying s = Inr x2" "(x, y) = x2"
  then have "bitBufferLen y = bitBufferLen s" using readUnderlying_bitBuffer[of s x y] by simp
  then show "((n, xa), n, s) \<in> measure (\<lambda>(n, s). n - bitBufferLen s)"
    if "xa = y\<lparr>bitBuffer := push_bit 8 (bitBuffer y) OR word_of_int x, bitBufferLen := bitBufferLen y + 8\<rparr>"
    using that a by simp
qed

declare readUint_fill.simps [simp del]

definition readUint :: "nat \<Rightarrow> FlacInput \<Rightarrow> error + (32 word \<times> FlacInput)" where
  "readUint n s =
     (if n > 32 then Inl (InvalidArgument ''Cannot read more than 32 bits of a `uint32` value'')
      else
        case readUint_fill n s of
          Inl e \<Rightarrow> Inl e
        | Inr s' \<Rightarrow>
            (let r0 = (ucast (drop_bit (bitBufferLen s' - n) (bitBuffer s')) :: 32 word);
                 r = (if n \<noteq> 32 then r0 AND (push_bit n 1 - 1) else r0);
                 len = bitBufferLen s' - n
             in if n \<noteq> 32 \<and> drop_bit n r \<noteq> 0 then Inl AssertionFailed
                else if len \<le> 64 then Inr (r, s'\<lparr>bitBufferLen := len\<rparr>)
                else Inl AssertionFailed))"

definition readSignedInt :: "nat \<Rightarrow> FlacInput \<Rightarrow> error + (32 word \<times> FlacInput)" where
  "readSignedInt n s =
     (if n > 32 then Inl (InvalidArgument ''Cannot read more than 32 bits of a `uint32` value'')
      else
        case readUint n s of
          Inl e \<Rightarrow> Inl e
        | Inr (r, s') \<Rightarrow> Inr (drop_bit (32 - n) (push_bit (32 - n) r), s'))"

definition readByte :: "FlacInput \<Rightarrow> error + (int \<times> FlacInput)" where
  "readByte s =
     (case checkByteAligned s of
        Inl e \<Rightarrow> Inl e
      | Inr _ \<Rightarrow>
          if bitBufferLen s \<ge> 8 then
            (case readUint 8 s of Inl e \<Rightarrow> Inl e | Inr (r, s') \<Rightarrow> Inr (uint r, s'))
          else if bitBufferLen s \<noteq> 0 then Inl AssertionFailed
          else readUnderlying s)"

text \<open>\<^verbatim>\<open>readFully(b, length)\<close>: the loop of \<^verbatim>\<open>b[i] = (uint_fast8_t)readUint(8)\<close>; the model
  returns the bytes stored.\<close>

fun readFully_loop :: "nat \<Rightarrow> FlacInput \<Rightarrow> error + (8 word list \<times> FlacInput)" where
  "readFully_loop 0 s = Inr ([], s)"
| "readFully_loop (Suc k) s =
     (case readUint 8 s of
        Inl e \<Rightarrow> Inl e
      | Inr (r, s') \<Rightarrow>
          (case readFully_loop k s' of
             Inl e \<Rightarrow> Inl e
           | Inr (bs, s'') \<Rightarrow> Inr (ucast r # bs, s'')))"

definition readFully :: "nat \<Rightarrow> FlacInput \<Rightarrow> error + (8 word list \<times> FlacInput)" where
  "readFully len s =
     (case checkByteAligned s of Inl e \<Rightarrow> Inl e | Inr _ \<Rightarrow> readFully_loop len s)"

definition getPosition :: "FlacInput \<Rightarrow> 64 word" where
  "getPosition s =
     byteBufferStartPos s + word_of_int (byteBufferIndex s) - of_nat ((bitBufferLen s + 7) div 8)"

definition getBitPosition :: "FlacInput \<Rightarrow> nat" where
  "getBitPosition s = unat ((- (of_nat (bitBufferLen s) :: 32 word)) AND 7)"

text \<open>
  The constructors \<^verbatim>\<open>AbstractFlacLowLevelInput()\<close> and \<^verbatim>\<open>ByteArrayFlacInput(b, len)\<close>:
  \<^verbatim>\<open>positionChanged(0)\<close> clears the byte buffer with \<^verbatim>\<open>memset\<close>, empties the bit buffer and
  resets the CRCs.
\<close>

definition newByteArrayFlacInput :: "8 word list \<Rightarrow> FlacInput" where
  "newByteArrayFlacInput b =
     \<lparr>data = b, offset = 0, byteBufferStartPos = 0, byteBuffer = replicate BUF_SIZE 0,
      byteBufferLen = 0, byteBufferIndex = 0, bitBuffer = 0, bitBufferLen = 0,
      crc8 = 0, crc16 = 0, crcStartIndex = 0\<rparr>"

section \<open>The Rice decoder of \<^verbatim>\<open>AbstractFlacLowLevelInput\<close>\<close>

subsection \<open>The decoding tables\<close>

definition RICE_DECODING_TABLE_BITS :: nat where
  "RICE_DECODING_TABLE_BITS = 13"

definition RICE_DECODING_TABLE_MASK :: "32 word" where
  "RICE_DECODING_TABLE_MASK = push_bit RICE_DECODING_TABLE_BITS 1 - 1"

definition RICE_DECODING_TABLE_LEN :: nat where
  "RICE_DECODING_TABLE_LEN = 31"

definition RICE_DECODING_CHUNK :: nat where
  "RICE_DECODING_CHUNK = 4"

text \<open>
  The two initialisers run the same loops and differ in the value they store. For the symbol
  \<open>i\<close> of parameter \<open>param\<close>: \<^verbatim>\<open>numBits = (i >> param) + 1 + param\<close>,
  \<^verbatim>\<open>bits = (1 << param) | (i & ((1 << param) - 1))\<close>, \<^verbatim>\<open>shift = RICE_DECODING_TABLE_BITS - numBits\<close>,
  and the inner loop stores at the indices \<^verbatim>\<open>(bits << shift) | j\<close> for \<open>j < 1 << shift\<close>. The
  loop variables stay below \<open>2\<^sup>3\<^sup>1\<close> and are natural numbers here.
\<close>

definition riceNumBits :: "nat \<Rightarrow> nat \<Rightarrow> nat" where
  "riceNumBits param i = drop_bit param i + 1 + param"

definition riceBits :: "nat \<Rightarrow> nat \<Rightarrow> nat" where
  "riceBits param i = push_bit param 1 OR (i AND (push_bit param 1 - 1))"

definition riceFillSymbol :: "nat \<Rightarrow> nat \<Rightarrow> 'a \<Rightarrow> 'a list \<Rightarrow> 'a list" where
  "riceFillSymbol param i v table =
     (let shift = RICE_DECODING_TABLE_BITS - riceNumBits param i in
      fold (\<lambda>j t. t[push_bit shift (riceBits param i) OR j := v]) [0..<push_bit shift 1] table)"

text \<open>The loop \<^verbatim>\<open>for (i = 0;; i++)\<close>, left when \<^verbatim>\<open>numBits > RICE_DECODING_TABLE_BITS\<close>.\<close>

function riceFillFrom :: "nat \<Rightarrow> (nat \<Rightarrow> 'a) \<Rightarrow> nat \<Rightarrow> 'a list \<Rightarrow> 'a list" where
  "riceFillFrom param val i table =
     (if riceNumBits param i > RICE_DECODING_TABLE_BITS then table
      else riceFillFrom param val (i + 1) (riceFillSymbol param i (val i) table))"
  by pat_completeness auto
termination
proof (relation "measure (\<lambda>(param, val, i, table). 13 * 2 ^ param - i)")
  show "wf (measure (\<lambda>(param, val, i, table). 13 * 2 ^ param - i))" by simp
next
  fix param :: nat and val :: "nat \<Rightarrow> 'a" and i :: nat and table :: "'a list"
  assume "\<not> RICE_DECODING_TABLE_BITS < riceNumBits param i"
  then have "i div 2 ^ param < 13"
    by (simp add: riceNumBits_def RICE_DECODING_TABLE_BITS_def drop_bit_eq_div)
  then have "i < 13 * 2 ^ param"
    by (simp add: div_less_iff_less_mult mult.commute)
  then show "((param, val, i + 1, riceFillSymbol param i (val i) table), param, val, i, table)
      \<in> measure (\<lambda>(param, val, i, table). 13 * 2 ^ param - i)"
    by simp
qed

declare riceFillFrom.simps [simp del]

text \<open>
  The value stored in \<^verbatim>\<open>RICE_DECODING_VALUE_TABLES\<close>: \<^verbatim>\<open>(i >> 1) ^ -(i & 1)\<close> on the
  \<^verbatim>\<open>uint_fast32_t\<close> \<open>i\<close>, converted to \<^verbatim>\<open>int_fast32_t\<close>.
\<close>

definition riceTableValue :: "nat \<Rightarrow> 32 word" where
  "riceTableValue i = drop_bit 1 (of_nat i) XOR - (of_nat i AND 1)"

text \<open>
  One table is \<^verbatim>\<open>new T[1 << RICE_DECODING_TABLE_BITS]\<close>, an array of 8192 elements which the
  allocation does not initialise, and there are \<^verbatim>\<open>RICE_DECODING_TABLE_LEN\<close> tables of each
  kind, for \<open>param = 0, \<dots>, 30\<close>. The loops write the elements whose index begins with a code
  word of at most 13 bits; for \<open>param \<ge> 13\<close> they leave at \<open>i = 0\<close> and write nothing. Every
  other element keeps what the allocation left there: \<open>fresh k\<close> is that value at index \<open>k\<close>.
  The decoder reads \<open>0\<close> in the table of consumed bits as ``no entry''.
\<close>

definition riceConsumedTable :: "(nat \<Rightarrow> 8 word) \<Rightarrow> nat \<Rightarrow> 8 word list" where
  "riceConsumedTable fresh param =
     riceFillFrom param (\<lambda>i. of_nat (riceNumBits param i)) 0
       (map fresh [0..<push_bit RICE_DECODING_TABLE_BITS 1])"

definition riceValueTable :: "(nat \<Rightarrow> 32 word) \<Rightarrow> nat \<Rightarrow> 32 word list" where
  "riceValueTable fresh param =
     riceFillFrom param riceTableValue 0 (map fresh [0..<push_bit RICE_DECODING_TABLE_BITS 1])"

text \<open>The two arrays of tables; \<open>fresh param\<close> is what the allocation of table \<open>param\<close> left.\<close>

definition RICE_DECODING_CONSUMED_TABLES :: "(nat \<Rightarrow> nat \<Rightarrow> 8 word) \<Rightarrow> 8 word list list" where
  "RICE_DECODING_CONSUMED_TABLES fresh =
     map (\<lambda>param. riceConsumedTable (fresh param) param) [0..<RICE_DECODING_TABLE_LEN]"

definition RICE_DECODING_VALUE_TABLES :: "(nat \<Rightarrow> nat \<Rightarrow> 32 word) \<Rightarrow> 32 word list list" where
  "RICE_DECODING_VALUE_TABLES fresh =
     map (\<lambda>param. riceValueTable (fresh param) param) [0..<RICE_DECODING_TABLE_LEN]"

subsection \<open>\<^verbatim>\<open>fillBitBuffer\<close>\<close>

text \<open>The loop \<^verbatim>\<open>for (j = 0; j < n; j++, i++) bitBuffer = (bitBuffer << 8) | (b[i] & 0xFF)\<close>.\<close>

fun fillBitBuffer_loop :: "nat \<Rightarrow> int \<Rightarrow> FlacInput \<Rightarrow> error + FlacInput" where
  "fillBitBuffer_loop 0 i s = Inr s"
| "fillBitBuffer_loop (Suc k) i s =
     (case arrayGet (byteBuffer s) i of
        Inl e \<Rightarrow> Inl e
      | Inr x \<Rightarrow>
          fillBitBuffer_loop k (i + 1)
            (s\<lparr>bitBuffer := push_bit 8 (bitBuffer s) OR ucast (x AND 0xFF)\<rparr>))"

definition fillBitBuffer :: "FlacInput \<Rightarrow> error + FlacInput" where
  "fillBitBuffer s =
     (let i = byteBufferIndex s;
          n = min (int ((64 - bitBufferLen s) div 8)) (byteBufferLen s - i)
      in case (if n > 0 then
                 (case fillBitBuffer_loop (nat n) i s of
                    Inl e \<Rightarrow> Inl e
                  | Inr s' \<Rightarrow> Inr (s'\<lparr>bitBufferLen := bitBufferLen s' + nat (n * 8)\<rparr>))
               else if bitBufferLen s \<le> 56 then
                 (case readUnderlying s of
                    Inl e \<Rightarrow> Inl e
                  | Inr (temp, s') \<Rightarrow>
                      if temp = - 1 then Inl (RuntimeError ''End of data'')
                      else Inr (s'\<lparr>bitBuffer := push_bit 8 (bitBuffer s') OR word_of_int temp,
                                    bitBufferLen := bitBufferLen s' + 8\<rparr>))
               else Inr s) of
           Inl e \<Rightarrow> Inl e
         | Inr s1 \<Rightarrow>
             if 8 \<le> bitBufferLen s1 \<and> bitBufferLen s1 \<le> 64 then
               Inr (s1\<lparr>byteBufferIndex := byteBufferIndex s1 + n\<rparr>)
             else Inl AssertionFailed)"

subsection \<open>\<^verbatim>\<open>readRiceSignedInts\<close>\<close>

text \<open>Storing into the caller's array \<^verbatim>\<open>result\<close>.\<close>

definition arraySet :: "'a list \<Rightarrow> int \<Rightarrow> 'a \<Rightarrow> error + 'a list" where
  "arraySet xs i v =
     (if 0 \<le> i \<and> i < int (length xs) then Inr (xs[nat i := v]) else Inl OutOfBounds)"

text \<open>
  The slow path. \<open>riceUnary\<close> is the loop \<^verbatim>\<open>while (readUint(1) == 0)\<close> with its guard
  \<^verbatim>\<open>val >= unaryLimit\<close>, an unsigned comparison; \<open>riceSlowSymbol\<close> is the code from
  \<^verbatim>\<open>int_fast64_t val = 0\<close> to the second assertion and returns the decoded value.
\<close>

function riceUnary :: "64 word \<Rightarrow> 64 word \<Rightarrow> FlacInput \<Rightarrow> error + (64 word \<times> FlacInput)" where
  "riceUnary unaryLimit val s =
     (case readUint 1 s of
        Inl e \<Rightarrow> Inl e
      | Inr (b, s') \<Rightarrow>
          if b = 0 then
            (if val \<ge> unaryLimit then Inl (DataFormatException ''Residual value too large'')
             else riceUnary unaryLimit (val + 1) s')
          else Inr (val, s'))"
  by pat_completeness auto
termination
proof (relation "measure (\<lambda>(unaryLimit, val, s). unat unaryLimit - unat val)")
  show "wf (measure (\<lambda>(unaryLimit, val, s). unat unaryLimit - unat val))" by simp
next
  fix unaryLimit val :: "64 word" and s :: FlacInput and x2 x y
  assume "\<not> unaryLimit \<le> val"
  then have lt: "val < unaryLimit" by simp
  then have "unat val < unat unaryLimit" by (simp add: word_less_nat_alt)
  moreover have "unat unaryLimit < 2 ^ 64"
    using unsigned_less[of unaryLimit, where 'a=nat] by simp
  ultimately have "unat val + unat (1 :: 64 word) < 2 ^ LENGTH(64)" by simp
  then have "unat (val + 1) = unat val + 1"
    using unat_add_lem[of val 1] by simp
  moreover note \<open>unat val < unat unaryLimit\<close>
  ultimately show "((unaryLimit, val + 1, y), unaryLimit, val, s)
      \<in> measure (\<lambda>(unaryLimit, val, s). unat unaryLimit - unat val)"
    by simp
qed

declare riceUnary.simps [simp del]

definition riceSlowSymbol :: "nat \<Rightarrow> FlacInput \<Rightarrow> error + (64 word \<times> FlacInput)" where
  "riceSlowSymbol param s =
     (case riceUnary (push_bit (53 - param) 1) 0 s of
        Inl e \<Rightarrow> Inl e
      | Inr (q, s1) \<Rightarrow>
          (case readUint param s1 of
             Inl e \<Rightarrow> Inl e
           | Inr (r, s2) \<Rightarrow>
               (let val = push_bit param q OR ucast r in
                if drop_bit 53 val \<noteq> 0 then Inl AssertionFailed
                else
                  (let val' = drop_bit 1 val XOR - (val AND 1) in
                   if signed_drop_bit 52 val' = 0 \<or> signed_drop_bit 52 val' = - 1 then Inr (val', s2)
                   else Inl AssertionFailed))))"

text \<open>
  The fast path for one symbol, the body of \<^verbatim>\<open>for (i = 0; i < RICE_DECODING_CHUNK; i++, start++)\<close>:
  \<open>None\<close> is the jump \<^verbatim>\<open>goto middle\<close> taken when \<^verbatim>\<open>consumed == 0\<close>. \<^verbatim>\<open>bitBufferLen -= consumed\<close>
  is a subtraction in the \<^verbatim>\<open>uint_fast8_t\<close> field \<^verbatim>\<open>bitBufferLen\<close>, modulo \<open>2\<^sup>8\<close>.
\<close>

definition riceFastSymbol ::
  "8 word list \<Rightarrow> 32 word list \<Rightarrow> FlacInput \<Rightarrow> error + (64 word \<times> FlacInput) option" where
  "riceFastSymbol consumeTable valueTable s =
     (let extractedBits =
            (ucast (drop_bit (bitBufferLen s - RICE_DECODING_TABLE_BITS) (bitBuffer s)) :: 32 word)
              AND RICE_DECODING_TABLE_MASK
      in case arrayGet consumeTable (sint extractedBits) of
           Inl e \<Rightarrow> Inl e
         | Inr consumed \<Rightarrow>
             if consumed = 0 then Inr None
             else
               (case arrayGet valueTable (sint extractedBits) of
                  Inl e \<Rightarrow> Inl e
                | Inr v \<Rightarrow>
                    Inr (Some (scast v,
                      s\<lparr>bitBufferLen := (bitBufferLen s + 256 - unat consumed) mod 256\<rparr>))))"

text \<open>
  The \<^verbatim>\<open>for\<close> loop over one chunk, from its counter \<open>i\<close>: the result tells whether the loop
  ran to its end (\<open>True\<close>) or jumped to \<^verbatim>\<open>middle\<close> (\<open>False\<close>).
\<close>

function riceFastChunk ::
  "8 word list \<Rightarrow> 32 word list \<Rightarrow> nat \<Rightarrow> 64 word list \<Rightarrow> int \<Rightarrow> FlacInput
     \<Rightarrow> error + (bool \<times> 64 word list \<times> int \<times> FlacInput)" where
  "riceFastChunk consumeTable valueTable i result start s =
     (if i < RICE_DECODING_CHUNK then
        (case riceFastSymbol consumeTable valueTable s of
           Inl e \<Rightarrow> Inl e
         | Inr None \<Rightarrow> Inr (False, result, start, s)
         | Inr (Some (v, s')) \<Rightarrow>
             (case arraySet result start v of
                Inl e \<Rightarrow> Inl e
              | Inr result' \<Rightarrow>
                  riceFastChunk consumeTable valueTable (i + 1) result' (start + 1) s'))
      else Inr (True, result, start, s))"
  by pat_completeness auto
termination
  by (relation "measure (\<lambda>(consumeTable, valueTable, i, result, start, s). RICE_DECODING_CHUNK - i)")
     auto

declare riceFastChunk.simps [simp del]

lemma riceFastChunk_start:
  "riceFastChunk consumeTable valueTable i result start s = Inr (fin, result', start', s')
   \<Longrightarrow> start \<le> start' \<and> (fin \<longrightarrow> start' = start + int (RICE_DECODING_CHUNK - i))"
proof (induction consumeTable valueTable i result start s rule: riceFastChunk.induct)
  case (1 consumeTable valueTable i result start s)
  show ?case
  proof (cases "i < RICE_DECODING_CHUNK")
    case False
    then show ?thesis using "1.prems" by (simp add: riceFastChunk.simps)
  next
    case True
    show ?thesis
    proof (cases "riceFastSymbol consumeTable valueTable s")
      case (Inl e)
      then show ?thesis using "1.prems" True by (simp add: riceFastChunk.simps)
    next
      case (Inr r)
      show ?thesis
      proof (cases r)
        case None
        then show ?thesis using "1.prems" True Inr by (simp add: riceFastChunk.simps)
      next
        case (Some vs)
        obtain v s1 where vs: "vs = (v, s1)" by (cases vs)
        from "1.prems" True Inr Some vs obtain result1 where
          r1: "arraySet result start v = Inr result1" and
          rec: "riceFastChunk consumeTable valueTable (i + 1) result1 (start + 1) s1
                  = Inr (fin, result', start', s')"
          by (subst (asm) riceFastChunk.simps) (auto split: sum.splits)
        from "1.IH"[OF True Inr Some vs[symmetric] r1 rec] True
        show ?thesis by auto
      qed
    qed
  qed
qed

text \<open>
  The two nested \<^verbatim>\<open>while\<close> loops with the label \<^verbatim>\<open>middle\<close>. The first argument tells where
  control is: \<open>True\<close> at the test of the inner loop \<^verbatim>\<open>while (start <= end - RICE_DECODING_CHUNK)\<close>,
  \<open>False\<close> at \<^verbatim>\<open>middle\<close>.
\<close>

function riceLoop ::
  "bool \<Rightarrow> nat \<Rightarrow> 8 word list \<Rightarrow> 32 word list \<Rightarrow> 64 word list \<Rightarrow> int \<Rightarrow> int \<Rightarrow> FlacInput
     \<Rightarrow> error + (64 word list \<times> FlacInput)" where
  "riceLoop inner param consumeTable valueTable result start end s =
     (if inner then
        (if start \<le> end - int RICE_DECODING_CHUNK then
           (case (if bitBufferLen s < RICE_DECODING_CHUNK * RICE_DECODING_TABLE_BITS then
                    (if byteBufferIndex s \<le> byteBufferLen s - 8 then
                       (case fillBitBuffer s of Inl e \<Rightarrow> Inl e | Inr s' \<Rightarrow> Inr (Some s'))
                     else Inr None)
                  else Inr (Some s)) of
              Inl e \<Rightarrow> Inl e
            | Inr None \<Rightarrow> riceLoop False param consumeTable valueTable result start end s
            | Inr (Some s1) \<Rightarrow>
                (case riceFastChunk consumeTable valueTable 0 result start s1 of
                   Inl e \<Rightarrow> Inl e
                 | Inr (fin, result', start', s2) \<Rightarrow>
                     riceLoop fin param consumeTable valueTable result' start' end s2))
         else riceLoop False param consumeTable valueTable result start end s)
      else
        (if start \<ge> end then Inr (result, s)
         else
           (case riceSlowSymbol param s of
              Inl e \<Rightarrow> Inl e
            | Inr (val, s') \<Rightarrow>
                (case arraySet result start val of
                   Inl e \<Rightarrow> Inl e
                 | Inr result' \<Rightarrow>
                     riceLoop True param consumeTable valueTable result' (start + 1) end s'))))"
  by pat_completeness auto
termination
proof (relation "measure (\<lambda>(inner, param, consumeTable, valueTable, result, start, end, s).
                    2 * nat (end - start) + (if inner then 1 else 0))", goal_cases)
  case 1
  then show ?case by simp
next
  case (2 inner param consumeTable valueTable result start e s)
  then show ?case by simp
next
  case (3 inner param consumeTable valueTable result start e s x2 x2a x2b x y xa ya xb yb)
  then have "riceFastChunk consumeTable valueTable 0 result start x2a = Inr (x, xa, xb, yb)"
    by simp
  from riceFastChunk_start[OF this] 3
  show ?case by (auto simp: RICE_DECODING_CHUNK_def)
next
  case (4 inner param consumeTable valueTable result start e s)
  then show ?case by simp
next
  case (5 inner param consumeTable valueTable result start e s x2 x y x2a)
  then show ?case by auto
qed

declare riceLoop.simps [simp del]

text \<open>
  \<^verbatim>\<open>readRiceSignedInts(param, result, start, end)\<close>: the test of \<open>param\<close> (an
  \<^verbatim>\<open>int_fast32_t\<close>), then the two table fetches \<^verbatim>\<open>RICE_DECODING_CONSUMED_TABLES[param]\<close> and
  \<^verbatim>\<open>RICE_DECODING_VALUE_TABLES[param]\<close>, then the loops. \<open>freshC\<close> and \<open>freshV\<close> are what the
  allocations of the tables left.
\<close>

definition readRiceSignedInts ::
  "(nat \<Rightarrow> nat \<Rightarrow> 8 word) \<Rightarrow> (nat \<Rightarrow> nat \<Rightarrow> 32 word) \<Rightarrow>
   int \<Rightarrow> 64 word list \<Rightarrow> int \<Rightarrow> int \<Rightarrow> FlacInput \<Rightarrow> error + (64 word list \<times> FlacInput)" where
  "readRiceSignedInts freshC freshV param result start end s =
     (if param < 0 \<or> param > 31 then
        Inl (InvalidArgument ''Rice Code Parameter has to be between 0 and 31 inclusive'')
      else
        (case arrayGet (RICE_DECODING_CONSUMED_TABLES freshC) param of
           Inl e \<Rightarrow> Inl e
         | Inr consumeTable \<Rightarrow>
             (case arrayGet (RICE_DECODING_VALUE_TABLES freshV) param of
                Inl e \<Rightarrow> Inl e
              | Inr valueTable \<Rightarrow>
                  riceLoop True (nat param) consumeTable valueTable result start end s)))"

text \<open>
  The slow path alone: the code from the label \<^verbatim>\<open>middle\<close> to \<^verbatim>\<open>start++\<close>, repeated until
  \<^verbatim>\<open>start >= end\<close>. It is what \<^verbatim>\<open>readRiceSignedInts\<close> does when no table has an entry.
\<close>

function riceSlowLoop ::
  "nat \<Rightarrow> 64 word list \<Rightarrow> int \<Rightarrow> int \<Rightarrow> FlacInput \<Rightarrow> error + (64 word list \<times> FlacInput)" where
  "riceSlowLoop param result start end s =
     (if start \<ge> end then Inr (result, s)
      else
        (case riceSlowSymbol param s of
           Inl e \<Rightarrow> Inl e
         | Inr (val, s') \<Rightarrow>
             (case arraySet result start val of
                Inl e \<Rightarrow> Inl e
              | Inr result' \<Rightarrow> riceSlowLoop param result' (start + 1) end s')))"
  by pat_completeness auto
termination
  by (relation "measure (\<lambda>(param, result, start, end, s). nat (end - start))") auto

declare riceSlowLoop.simps [simp del]

section \<open>\<^verbatim>\<open>common/StreamInfo\<close>\<close>

text \<open>
  The fields of \<^verbatim>\<open>StreamInfo\<close>; \<^verbatim>\<open>md5Hash\<close> is an array of \<^verbatim>\<open>MD5_DIGEST_LENGTH = 16\<close>
  bytes. \<^verbatim>\<open>minBlockSize\<close> and \<^verbatim>\<open>maxBlockSize\<close> are declared \<^verbatim>\<open>uint_fast16_t\<close>, a type of
  16 bits or more, and are natural numbers here: \<^verbatim>\<open>(minBlockSize >> 16) != 0\<close> in
  \<^verbatim>\<open>checkValues\<close> is a test that can fail wherever the type is wider than 16 bits.
\<close>

record StreamInfo =
  minBlockSize :: nat
  maxBlockSize :: nat
  minFrameSize :: "32 word"
  maxFrameSize :: "32 word"
  sampleRate :: "32 word"
  numChannels :: "8 word"
  sampleDepth :: "8 word"
  numSamples :: "64 word"
  md5Hash :: "8 word list"

text \<open>
  The constructor \<^verbatim>\<open>StreamInfo(b, length)\<close>, which parses the 34 bytes of a stream info block
  through \<^verbatim>\<open>new Decode::ByteArrayFlacInput(b, length)\<close>; see the assumption made with
  \<open>readUnderlyingBytes\<close>: as the headers stand this constructor does not compile.

  Two things in
  \<^verbatim>\<open>numSamples = (long) in->readUint(18) << 18 | in->readUint(18)\<close>
  are left to the implementation and are parameters here. The two operands of \<^verbatim>\<open>|\<close> are
  unsequenced, so either call of \<^verbatim>\<open>readUint\<close> may be made first: \<open>ord\<close> says which. The
  left operand is shifted as a \<^verbatim>\<open>long\<close>, of \<open>longBits\<close> bits (64 on LP64 systems, 32 on 32-bit
  systems and on 64-bit Windows); the shift keeps the low \<open>longBits\<close> bits, and the result of
  \<^verbatim>\<open>|\<close> reaches the \<^verbatim>\<open>uint_fast64_t\<close> field without a change of value for these two widths.
\<close>

datatype operandOrder = LeftFirst | RightFirst

definition StreamInfo_parse_tail ::
  "operandOrder \<Rightarrow> nat \<Rightarrow> nat \<Rightarrow> nat \<Rightarrow> 32 word \<Rightarrow> 32 word \<Rightarrow> FlacInput
     \<Rightarrow> error + StreamInfo" where
  "StreamInfo_parse_tail ord longBits minBS maxBS minFS maxFS s =
     (case readUint 20 s of
        Inl e \<Rightarrow> Inl e
      | Inr (sr, s1) \<Rightarrow>
          if sr = 0 \<or> sr > 655350 then Inl (DataFormatException ''Invalid sample rate'')
          else
     (case readUint 3 s1 of
        Inl e \<Rightarrow> Inl e
      | Inr (nc, s2) \<Rightarrow>
     (case readUint 5 s2 of
        Inl e \<Rightarrow> Inl e
      | Inr (sd, s3) \<Rightarrow>
     (case readUint 18 s3 of
        Inl e \<Rightarrow> Inl e
      | Inr (first, s4) \<Rightarrow>
     (case readUint 18 s4 of
        Inl e \<Rightarrow> Inl e
      | Inr (second, s5) \<Rightarrow>
     (case readFully 16 s5 of
        Inl e \<Rightarrow> Inl e
      | Inr (md5, s6) \<Rightarrow>
          (let hi = (case ord of LeftFirst \<Rightarrow> first | RightFirst \<Rightarrow> second);
               lo = (case ord of LeftFirst \<Rightarrow> second | RightFirst \<Rightarrow> first)
           in Inr \<lparr>minBlockSize = minBS, maxBlockSize = maxBS, minFrameSize = minFS,
                    maxFrameSize = maxFS, sampleRate = sr, numChannels = ucast (nc + 1),
                    sampleDepth = ucast (sd + 1),
                    numSamples = take_bit longBits (push_bit 18 (ucast hi :: 64 word)) OR ucast lo,
                    md5Hash = md5\<rparr>)))))))"

definition StreamInfo_parse :: "operandOrder \<Rightarrow> nat \<Rightarrow> 8 word list \<Rightarrow> error + StreamInfo" where
  "StreamInfo_parse ord longBits b =
     (if length b \<noteq> 34 then Inl (InvalidArgument ''Invalid data length'')
      else
     (case readUint 16 (newByteArrayFlacInput b) of
        Inl e \<Rightarrow> Inl e
      | Inr (r1, s1) \<Rightarrow>
     (case readUint 16 s1 of
        Inl e \<Rightarrow> Inl e
      | Inr (r2, s2) \<Rightarrow>
     (case readUint 24 s2 of
        Inl e \<Rightarrow> Inl e
      | Inr (r3, s3) \<Rightarrow>
     (case readUint 24 s3 of
        Inl e \<Rightarrow> Inl e
      | Inr (r4, s4) \<Rightarrow>
          (let minBS = unat r1; maxBS = unat r2 in
           if minBS < 16 then Inl (DataFormatException ''Minimum block size less than 16'')
           else if maxBS < minBS then
             Inl (DataFormatException ''Maximum block size less than minimum block size'')
           else if r3 \<noteq> 0 \<and> r4 \<noteq> 0 \<and> r4 < r3 then
             Inl (DataFormatException ''Maximum frame size less than minimum frame size'')
           else StreamInfo_parse_tail ord longBits minBS maxBS r3 r4 s4))))))"

definition StreamInfo_checkValues :: "StreamInfo \<Rightarrow> error + unit" where
  "StreamInfo_checkValues S =
     (if drop_bit 16 (minBlockSize S) \<noteq> 0 then
        Inl (RuntimeError ''Invalid minimum block size'')
      else if drop_bit 16 (maxBlockSize S) \<noteq> 0 then
        Inl (RuntimeError ''Invalid maximum block size'')
      else if drop_bit 24 (minFrameSize S) \<noteq> 0 then
        Inl (RuntimeError ''Invalid minimum frame size'')
      else if drop_bit 24 (maxFrameSize S) \<noteq> 0 then
        Inl (RuntimeError ''Invalid maximum frame size'')
      else if sampleRate S = 0 \<or> drop_bit 20 (sampleRate S) \<noteq> 0 then
        Inl (RuntimeError ''Invalid sample rate'')
      else if numChannels S < 1 \<or> numChannels S > 8 then
        Inl (RuntimeError ''Invalid number of channels'')
      else if sampleDepth S < 4 \<or> sampleDepth S > 32 then
        Inl (RuntimeError ''Invalid sample depth'')
      else if drop_bit 36 (numSamples S) \<noteq> 0 then
        Inl (RuntimeError ''Invalid number of samples'')
      else Inr ())"

text \<open>
  \<^verbatim>\<open>write(last, out)\<close>: \<^verbatim>\<open>checkValues()\<close> first, then the metadata block header and the
  fields. Every argument is converted to the \<^verbatim>\<open>int_fast32_t\<close> parameter of \<^verbatim>\<open>writeInt\<close>;
  \<^verbatim>\<open>numChannels - 1\<close> and \<^verbatim>\<open>sampleDepth - 1\<close> are computed in \<^verbatim>\<open>int\<close>. The stream \<^verbatim>\<open>out\<close>
  belongs to the caller, who still has it when \<^verbatim>\<open>write\<close> throws: a failure is returned
  together with the stream as the throw left it.
\<close>

definition StreamInfo_write ::
  "bool \<Rightarrow> StreamInfo \<Rightarrow> BitOutputStream \<Rightarrow> error \<times> BitOutputStream + BitOutputStream" where
  "StreamInfo_write isLast S out_stream =
     (case StreamInfo_checkValues S of
        Inl e \<Rightarrow> Inl (e, out_stream)
      | Inr _ \<Rightarrow>
          writeIntsE
            ([(1, if isLast then 1 else 0),
              (7, 0),
              (24, 34),
              (16, of_nat (minBlockSize S)),
              (16, of_nat (maxBlockSize S)),
              (24, minFrameSize S),
              (24, maxFrameSize S),
              (20, sampleRate S),
              (3, ucast (numChannels S) - 1),
              (5, ucast (sampleDepth S) - 1),
              (18, ucast (drop_bit 18 (numSamples S))),
              (18, ucast (drop_bit 0 (numSamples S)))]
             @ map (\<lambda>b. (8, ucast b)) (md5Hash S))
            out_stream)"

text \<open>
  The ranges of the data model of a stream info block: block sizes of 16 bits with
  \<open>16 \<le> minBlockSize \<le> maxBlockSize\<close>; frame sizes of 24 bits, ordered when both are known;
  \<open>1 \<le> sampleRate \<le> 655350\<close>; 1 to 8 channels; a depth of 4 to 32 bits; a sample count of
  36 bits.
\<close>

definition streamInfoRanges :: "StreamInfo \<Rightarrow> bool" where
  "streamInfoRanges S \<longleftrightarrow>
     16 \<le> minBlockSize S \<and> minBlockSize S < 2 ^ 16 \<and>
     minBlockSize S \<le> maxBlockSize S \<and> maxBlockSize S < 2 ^ 16 \<and>
     unat (minFrameSize S) < 2 ^ 24 \<and> unat (maxFrameSize S) < 2 ^ 24 \<and>
     (minFrameSize S = 0 \<or> maxFrameSize S = 0 \<or> unat (minFrameSize S) \<le> unat (maxFrameSize S)) \<and>
     1 \<le> unat (sampleRate S) \<and> unat (sampleRate S) \<le> 655350 \<and>
     1 \<le> unat (numChannels S) \<and> unat (numChannels S) \<le> 8 \<and>
     4 \<le> unat (sampleDepth S) \<and> unat (sampleDepth S) \<le> 32 \<and>
     unat (numSamples S) < 2 ^ 36"

text \<open>What \<^verbatim>\<open>checkValues\<close> tests: the width of each field on the wire.\<close>

definition streamInfoWidths :: "StreamInfo \<Rightarrow> bool" where
  "streamInfoWidths S \<longleftrightarrow>
     minBlockSize S < 2 ^ 16 \<and> maxBlockSize S < 2 ^ 16 \<and>
     unat (minFrameSize S) < 2 ^ 24 \<and> unat (maxFrameSize S) < 2 ^ 24 \<and>
     1 \<le> unat (sampleRate S) \<and> unat (sampleRate S) < 2 ^ 20 \<and>
     1 \<le> unat (numChannels S) \<and> unat (numChannels S) \<le> 8 \<and>
     4 \<le> unat (sampleDepth S) \<and> unat (sampleDepth S) \<le> 32 \<and>
     unat (numSamples S) < 2 ^ 36"

section \<open>\<^verbatim>\<open>common/SeekTable\<close>\<close>

text \<open>
  A seek point. \<^verbatim>\<open>frameSamples\<close> is declared \<^verbatim>\<open>uint_fast16_t\<close>, a type of 16 bits or more
  (64 bits with glibc on x86-64), and is a natural number here.
\<close>

record SeekPoint =
  sampleOffset :: "64 word"
  fileOffset :: "64 word"
  frameSamples :: nat

text \<open>
  \<^verbatim>\<open>checkValues\<close>: the loop \<^verbatim>\<open>for (i = 1; i < points.size(); i++)\<close>, from index \<open>i\<close> on.
\<close>

function checkValues_from :: "nat \<Rightarrow> SeekPoint list \<Rightarrow> error + unit" where
  "checkValues_from i points =
     (if i < length points then
        (let p = points ! i in
         if sampleOffset p \<noteq> 0xFFFFFFFFFFFFFFFF then
           (let q = points ! (i - 1) in
            if sampleOffset p \<le> sampleOffset q then
              Inl (RuntimeError ''Sample offsets out of order'')
            else if fileOffset p < fileOffset q then
              Inl (RuntimeError ''File offsets out of order'')
            else checkValues_from (i + 1) points)
         else checkValues_from (i + 1) points)
      else Inr ())"
  by pat_completeness auto
termination
  by (relation "measure (\<lambda>(i, points). length points - i)") auto

declare checkValues_from.simps [simp del]

definition SeekTable_checkValues :: "SeekPoint list \<Rightarrow> error + unit" where
  "SeekTable_checkValues points = checkValues_from 1 points"

text \<open>
  The invariant of a seek table in the words of its description, which are also those of the
  comment on \<^verbatim>\<open>checkValues\<close> in \<^verbatim>\<open>SeekTable.h\<close>: a placeholder point has
  \<open>sampleOffset = 0xFFFFFFFFFFFFFFFF\<close>; every other point has a \<open>frameSamples\<close> of 16 bits;
  the placeholders are a suffix of the list; among the other points \<open>sampleOffset\<close> increases
  strictly and \<open>fileOffset\<close> does not decrease.
\<close>

definition isPlaceholder :: "SeekPoint \<Rightarrow> bool" where
  "isPlaceholder p \<longleftrightarrow> sampleOffset p = 0xFFFFFFFFFFFFFFFF"

definition seekTableInvariant :: "SeekPoint list \<Rightarrow> bool" where
  "seekTableInvariant points \<longleftrightarrow>
     list_all (\<lambda>p. isPlaceholder p \<or> frameSamples p < 2 ^ 16) points \<and>
     list_all isPlaceholder (dropWhile (\<lambda>p. \<not> isPlaceholder p) points) \<and>
     sorted_wrt (<) (map sampleOffset (filter (\<lambda>p. \<not> isPlaceholder p) points)) \<and>
     sorted_wrt (\<le>) (map fileOffset (filter (\<lambda>p. \<not> isPlaceholder p) points))"

text \<open>Auxiliary notions for the proofs: what the loop tests on two neighbours, and the
  ordering part of the invariant.\<close>

definition pairOk :: "SeekPoint \<Rightarrow> SeekPoint \<Rightarrow> bool" where
  "pairOk q p \<longleftrightarrow>
     isPlaceholder p \<or> (sampleOffset q < sampleOffset p \<and> fileOffset q \<le> fileOffset p)"

definition orderInvariant :: "SeekPoint list \<Rightarrow> bool" where
  "orderInvariant points \<longleftrightarrow>
     list_all isPlaceholder (dropWhile (\<lambda>p. \<not> isPlaceholder p) points) \<and>
     sorted_wrt (<) (map sampleOffset (filter (\<lambda>p. \<not> isPlaceholder p) points)) \<and>
     sorted_wrt (\<le>) (map fileOffset (filter (\<lambda>p. \<not> isPlaceholder p) points))"

section \<open>\<^verbatim>\<open>common/FrameInfo\<close>\<close>

text \<open>
  The fields of \<^verbatim>\<open>FrameInfo\<close>: all are \<^verbatim>\<open>int_fast32_t\<close> but \<^verbatim>\<open>sampleOffset\<close>, which is
  \<^verbatim>\<open>int_fast64_t\<close>; the value \<open>-1\<close> means absent. The fields \<^verbatim>\<open>sampleOffset\<close>,
  \<^verbatim>\<open>numChannels\<close>, \<^verbatim>\<open>sampleRate\<close> and \<^verbatim>\<open>sampleDepth\<close> carry the prefix \<open>f\<close> because seek
  points and stream infos have fields of the same names.
\<close>

record FrameInfo =
  frameIndex :: "32 word"
  fSampleOffset :: "64 word"
  fNumChannels :: "32 word"
  channelAssignment :: "32 word"
  blockSize :: "32 word"
  fSampleRate :: "32 word"
  fSampleDepth :: "32 word"
  frameSize :: "32 word"

definition newFrameInfo :: FrameInfo where
  "newFrameInfo =
     \<lparr>frameIndex = - 1, fSampleOffset = - 1, fNumChannels = - 1, channelAssignment = - 1,
      blockSize = - 1, fSampleRate = - 1, fSampleDepth = - 1, frameSize = - 1\<rparr>"

definition BLOCK_SIZE_CODES :: "(32 word \<times> 32 word) list" where
  "BLOCK_SIZE_CODES =
     [(192, 1), (576, 2), (1152, 3), (2304, 4), (4608, 5), (256, 8), (512, 9), (1024, 10),
      (2048, 11), (4096, 12), (8192, 13), (16384, 14), (32768, 15)]"

definition SAMPLE_DEPTH_CODES :: "(32 word \<times> 32 word) list" where
  "SAMPLE_DEPTH_CODES = [(8, 1), (12, 2), (16, 4), (20, 5), (24, 6)]"

definition SAMPLE_RATE_CODES :: "(32 word \<times> 32 word) list" where
  "SAMPLE_RATE_CODES =
     [(88200, 1), (176400, 2), (192000, 3), (8000, 4), (16000, 5), (22050, 6), (24000, 7),
      (32000, 8), (44100, 9), (48000, 10), (96000, 11)]"

fun searchFirst :: "(32 word \<times> 32 word) list \<Rightarrow> 32 word \<Rightarrow> 32 word" where
  "searchFirst [] key = - 1"
| "searchFirst (pair # table) key = (if fst pair = key then snd pair else searchFirst table key)"

fun searchSecond :: "(32 word \<times> 32 word) list \<Rightarrow> 32 word \<Rightarrow> 32 word" where
  "searchSecond [] key = - 1"
| "searchSecond (pair # table) key = (if snd pair = key then fst pair else searchSecond table key)"

subsection \<open>Reading a frame header\<close>

text \<open>The loop of \<^verbatim>\<open>readUtf8Integer\<close> over the \<open>n - 1\<close> continuation bytes.\<close>

fun readUtf8_loop :: "nat \<Rightarrow> 64 word \<Rightarrow> FlacInput \<Rightarrow> error + (64 word \<times> FlacInput)" where
  "readUtf8_loop 0 result s = Inr (result, s)"
| "readUtf8_loop (Suc k) result s =
     (case readUint 8 s of
        Inl e \<Rightarrow> Inl e
      | Inr (temp, s') \<Rightarrow>
          if temp AND 0xC0 \<noteq> 0x80 then Inl (DataFormatException ''Invalid UTF-8 coded number'')
          else readUtf8_loop k (push_bit 6 result OR ucast (temp AND 0x3F)) s')"

definition readUtf8Integer :: "FlacInput \<Rightarrow> error + (64 word \<times> FlacInput)" where
  "readUtf8Integer s =
     (case readUint 8 s of
        Inl e \<Rightarrow> Inl e
      | Inr (head, s') \<Rightarrow>
          (let n = numberOfLeadingZeros32 (NOT (push_bit 24 head)) in
           if \<not> (0 \<le> n \<and> n \<le> 8) then Inl AssertionFailed
           else if n = 0 then Inr (scast head, s')
           else if n = 1 \<or> n = 8 then Inl (DataFormatException ''Invalid UTF-8 coded number'')
           else
             (case readUtf8_loop (nat (n - 1)) (scast head AND drop_bit (nat n) 0x7F) s' of
                Inl e \<Rightarrow> Inl e
              | Inr (result, s'') \<Rightarrow>
                  if drop_bit 36 result \<noteq> 0 then
                    Inl (DataFormatException ''Decoded value does not fit into uint36 type'')
                  else Inr (result, s''))))"

definition decodeBlockSize :: "8 word \<Rightarrow> FlacInput \<Rightarrow> error + (32 word \<times> FlacInput)" where
  "decodeBlockSize code s =
     (if drop_bit 4 code \<noteq> 0 then Inl (InvalidArgument ''Invalid block size'')
      else if code = 0 then Inl (DataFormatException ''Reserved block size'')
      else if code = 6 then
        (case readUint 8 s of Inl e \<Rightarrow> Inl e | Inr (r, s') \<Rightarrow> Inr (r + 1, s'))
      else if code = 7 then
        (case readUint 16 s of Inl e \<Rightarrow> Inl e | Inr (r, s') \<Rightarrow> Inr (r + 1, s'))
      else
        (let result = searchSecond BLOCK_SIZE_CODES (ucast code) in
         if 1 \<le> sint result \<and> sint result \<le> 65536 then Inr (result, s)
         else Inl AssertionFailed))"

definition decodeSampleRate :: "8 word \<Rightarrow> FlacInput \<Rightarrow> error + (32 word \<times> FlacInput)" where
  "decodeSampleRate code s =
     (if drop_bit 4 code \<noteq> 0 then Inl (InvalidArgument ''Invalid sample rate'')
      else if code = 0 then Inr (- 1, s)
      else if code = 12 then readUint 8 s
      else if code = 13 then readUint 16 s
      else if code = 14 then
        (case readUint 16 s of Inl e \<Rightarrow> Inl e | Inr (r, s') \<Rightarrow> Inr (r * 10, s'))
      else if code = 15 then Inl (DataFormatException ''Invalid sample rate'')
      else
        (let result = searchSecond SAMPLE_RATE_CODES (ucast code) in
         if 1 \<le> sint result \<and> sint result \<le> 655350 then Inr (result, s)
         else Inl AssertionFailed))"

definition decodeSampleDepth :: "8 word \<Rightarrow> error + 32 word" where
  "decodeSampleDepth code =
     (if drop_bit 3 code \<noteq> 0 then Inl (InvalidArgument ''Invalid sample depth'')
      else if code = 0 then Inr (- 1)
      else
        (let result = searchSecond SAMPLE_DEPTH_CODES (ucast code) in
         if result = - 1 then Inl (DataFormatException ''Reserved bit depth'')
         else if 1 \<le> sint result \<and> sint result \<le> 32 then Inr result
         else Inl AssertionFailed))"

text \<open>
  \<^verbatim>\<open>readFrame\<close>: \<open>None\<close> is the null pointer returned at the end of the stream. The steps
  follow the source in its order; each \<open>case\<close> is one call that can throw.
\<close>

definition readFrame_position ::
  "32 word \<Rightarrow> 64 word \<Rightarrow> FrameInfo \<Rightarrow> error + FrameInfo" where
  "readFrame_position blockStrategy position result =
     (if blockStrategy = 0 then
        (if drop_bit 31 position \<noteq> 0 then Inl (DataFormatException ''Frame index too large'')
         else Inr (result\<lparr>frameIndex := ucast position, fSampleOffset := - 1\<rparr>))
      else if blockStrategy = 1 then
        Inr (result\<lparr>fSampleOffset := position, frameIndex := - 1\<rparr>)
      else Inl (DataFormatException ''Unknown block strategy''))"

definition readFrame_tail ::
  "32 word \<Rightarrow> 32 word \<Rightarrow> FrameInfo \<Rightarrow> FlacInput \<Rightarrow> error + (FrameInfo option \<times> FlacInput)" where
  "readFrame_tail blockSizeCode sampleRateCode result s =
     (case decodeBlockSize (ucast blockSizeCode) s of
        Inl e \<Rightarrow> Inl e
      | Inr (bs, s1) \<Rightarrow>
     (case decodeSampleRate (ucast sampleRateCode) s1 of
        Inl e \<Rightarrow> Inl e
      | Inr (sr, s2) \<Rightarrow>
     (case getCrc8 s2 of
        Inl e \<Rightarrow> Inl e
      | Inr (computedCrc8, s3) \<Rightarrow>
     (case readUint 8 s3 of
        Inl e \<Rightarrow> Inl e
      | Inr (r, s4) \<Rightarrow>
          if r \<noteq> ucast computedCrc8 then Inl (DataFormatException ''CRC-8 mismatch'')
          else Inr (Some (result\<lparr>blockSize := bs, fSampleRate := sr\<rparr>), s4)))))"

definition readFrame_fields ::
  "FrameInfo \<Rightarrow> FlacInput \<Rightarrow> error + (FrameInfo option \<times> FlacInput)" where
  "readFrame_fields result s =
     (case readUint 1 s of
        Inl e \<Rightarrow> Inl e
      | Inr (reserved1, s1) \<Rightarrow>
          if reserved1 \<noteq> 0 then Inl (DataFormatException ''Reserved bit'')
          else
     (case readUint 1 s1 of
        Inl e \<Rightarrow> Inl e
      | Inr (blockStrategy, s2) \<Rightarrow>
     (case readUint 4 s2 of
        Inl e \<Rightarrow> Inl e
      | Inr (blockSizeCode, s3) \<Rightarrow>
     (case readUint 4 s3 of
        Inl e \<Rightarrow> Inl e
      | Inr (sampleRateCode, s4) \<Rightarrow>
     (case readUint 4 s4 of
        Inl e \<Rightarrow> Inl e
      | Inr (chanAsgn, s5) \<Rightarrow>
     (case (if chanAsgn < 8 then Inr (chanAsgn + 1)
            else if 8 \<le> chanAsgn \<and> chanAsgn \<le> 10 then Inr 2
            else Inl (DataFormatException ''Reserved channel assignment'')) of
        Inl e \<Rightarrow> Inl e
      | Inr nc \<Rightarrow>
     (case readUint 3 s5 of
        Inl e \<Rightarrow> Inl e
      | Inr (depthCode, s6) \<Rightarrow>
     (case decodeSampleDepth (ucast depthCode) of
        Inl e \<Rightarrow> Inl e
      | Inr sd \<Rightarrow>
     (case readUint 1 s6 of
        Inl e \<Rightarrow> Inl e
      | Inr (reserved2, s7) \<Rightarrow>
          if reserved2 \<noteq> 0 then Inl (DataFormatException ''Reserved bit'')
          else
     (case readUtf8Integer s7 of
        Inl e \<Rightarrow> Inl e
      | Inr (position, s8) \<Rightarrow>
     (case readFrame_position blockStrategy position
             (result\<lparr>channelAssignment := chanAsgn, fNumChannels := nc, fSampleDepth := sd\<rparr>) of
        Inl e \<Rightarrow> Inl e
      | Inr result' \<Rightarrow> readFrame_tail blockSizeCode sampleRateCode result' s8)))))))))))"

definition readFrame :: "FlacInput \<Rightarrow> error + (FrameInfo option \<times> FlacInput)" where
  "readFrame s =
     (case resetCrcs s of
        Inl e \<Rightarrow> Inl e
      | Inr s0 \<Rightarrow>
     (case readByte s0 of
        Inl e \<Rightarrow> Inl e
      | Inr (temp, s1) \<Rightarrow>
          if temp = - 1 then Inr (None, s1)
          else
     (case readUint 6 s1 of
        Inl e \<Rightarrow> Inl e
      | Inr (r, s2) \<Rightarrow>
          (let sync = (ucast (push_bit 6 (word_of_int temp :: 32 word) OR r) :: 16 word) in
           if sync \<noteq> 0x3FFE then Inl (DataFormatException ''Sync code expected'')
           else readFrame_fields (newFrameInfo\<lparr>frameSize := - 1\<rparr>) s2))))"

subsection \<open>Writing a frame header\<close>

definition getBlockSizeCode :: "32 word \<Rightarrow> error + 8 word" where
  "getBlockSizeCode bs =
     (let result = searchFirst BLOCK_SIZE_CODES bs in
      case (if result \<noteq> - 1 then Inr result
            else if 1 \<le> sint bs \<and> sint bs \<le> 256 then Inr 6
            else if 1 \<le> sint bs \<and> sint bs \<le> 65536 then Inr 7
            else Inl (InvalidArgument ''Invalid block size'')) of
        Inl e \<Rightarrow> Inl e
      | Inr r \<Rightarrow> if drop_bit 4 r = 0 then Inr (ucast r) else Inl AssertionFailed)"

definition getSampleRateCode :: "32 word \<Rightarrow> error + 8 word" where
  "getSampleRateCode sr =
     (if sint sr \<le> 0 then Inl (InvalidArgument ''Invalid sample rate'')
      else
        (let result = searchFirst SAMPLE_RATE_CODES sr;
             r = (if result \<noteq> - 1 then result
                  else if 0 \<le> sint sr \<and> sint sr < 256 then 12
                  else if 0 \<le> sint sr \<and> sint sr < 65536 then 13
                  else if 0 \<le> sint sr \<and> sint sr < 655360 \<and> sint sr mod 10 = 0 then 14
                  else 0)
         in if drop_bit 4 r = 0 then Inr (ucast r) else Inl AssertionFailed))"

definition getSampleDepthCode :: "32 word \<Rightarrow> error + 8 word" where
  "getSampleDepthCode sd =
     (if sd \<noteq> - 1 \<and> (sint sd < 1 \<or> sint sd > 32) then Inl (InvalidArgument ''Invalid bit depth'')
      else
        (let result = searchFirst SAMPLE_DEPTH_CODES sd;
             r = (if result = - 1 then 0 else result)
         in if drop_bit 3 r = 0 then Inr (ucast r) else Inl AssertionFailed))"

text \<open>
  \<^verbatim>\<open>writeUtf8Integer\<close>. The continuation bytes are written for \<open>i = n - 1\<close> down to \<open>0\<close>.
\<close>

definition writeUtf8Integer :: "64 word \<Rightarrow> BitOutputStream \<Rightarrow> error + BitOutputStream" where
  "writeUtf8Integer val s =
     (if drop_bit 36 val \<noteq> 0 then
        Inl (InvalidArgument ''Given value does not fit into uint36 type'')
      else
        (let bitLen = 64 - numberOfLeadingZeros64 val in
         if bitLen \<le> 7 then writeInt 8 (ucast val) s
         else
           (let n = nat ((bitLen - 2) div 5) in
            writeInts
              ((8, drop_bit n (0xFF80 :: 32 word) OR ucast (drop_bit (n * 6) val))
               # map (\<lambda>i. (8, 0x80 OR (ucast (drop_bit (i * 6) val) AND 0x3F))) (rev [0..<n]))
              s)))"

definition writeHeader_tail ::
  "FrameInfo \<Rightarrow> 8 word \<Rightarrow> 8 word \<Rightarrow> BitOutputStream \<Rightarrow> error + BitOutputStream" where
  "writeHeader_tail f blockSizeCode sampleRateCode s =
     (case (if blockSizeCode = 6 then writeInt 8 (blockSize f - 1) s
            else if blockSizeCode = 7 then writeInt 16 (blockSize f - 1) s
            else Inr s) of
        Inl e \<Rightarrow> Inl e
      | Inr s1 \<Rightarrow>
     (case (if sampleRateCode = 12 then writeInt 8 (fSampleRate f) s1
            else if sampleRateCode = 13 then writeInt 16 (fSampleRate f) s1
            else if sampleRateCode = 14 then writeInt 16 (word_of_int (sint (fSampleRate f) div 10)) s1
            else Inr s1) of
        Inl e \<Rightarrow> Inl e
      | Inr s2 \<Rightarrow>
     (case getCrc8W s2 of
        Inl e \<Rightarrow> Inl e
      | Inr (c, s3) \<Rightarrow> writeInt 8 (ucast c) s3)))"

definition writeHeader :: "FrameInfo \<Rightarrow> BitOutputStream \<Rightarrow> error + BitOutputStream" where
  "writeHeader f s =
     (case resetCrcsW s of
        Inl e \<Rightarrow> Inl e
      | Inr s0 \<Rightarrow>
     (case writeInts [(14, 0x3FFE), (1, 0), (1, 1)] s0 of
        Inl e \<Rightarrow> Inl e
      | Inr s1 \<Rightarrow>
     (case getBlockSizeCode (blockSize f) of
        Inl e \<Rightarrow> Inl e
      | Inr blockSizeCode \<Rightarrow>
     (case writeInt 4 (ucast blockSizeCode) s1 of
        Inl e \<Rightarrow> Inl e
      | Inr s2 \<Rightarrow>
     (case getSampleRateCode (fSampleRate f) of
        Inl e \<Rightarrow> Inl e
      | Inr sampleRateCode \<Rightarrow>
     (case writeInts [(4, ucast sampleRateCode), (4, channelAssignment f)] s2 of
        Inl e \<Rightarrow> Inl e
      | Inr s3 \<Rightarrow>
     (case getSampleDepthCode (fSampleDepth f) of
        Inl e \<Rightarrow> Inl e
      | Inr sampleDepthCode \<Rightarrow>
     (case writeInts [(3, ucast sampleDepthCode), (1, 0)] s3 of
        Inl e \<Rightarrow> Inl e
      | Inr s4 \<Rightarrow>
     (case (if (frameIndex f \<noteq> - 1 \<and> fSampleOffset f = - 1)
               \<or> (fSampleOffset f \<noteq> - 1 \<and> frameIndex f = - 1)
            then writeUtf8Integer (fSampleOffset f) s4
            else Inl (RuntimeError ''Frame index and sample offset are mutually exclusive'')) of
        Inl e \<Rightarrow> Inl e
      | Inr s5 \<Rightarrow> writeHeader_tail f blockSizeCode sampleRateCode s5)))))))))"

section \<open>Bit sequences\<close>

text \<open>
  For the proofs, the content of a bit stream is a list of bits, first bit first.
  \<open>bitsOf n w\<close> is the low \<open>n\<close> bits of \<open>w\<close>, most significant first. \<open>wbits\<close> is everything a
  writer has been given: the bytes already put out, then the bits waiting in its bit
  buffer. \<open>pendingBytes\<close> is what a reader has not yet moved to its bit buffer: the rest of the
  byte buffer, then the rest of the source; \<open>rbits\<close> is everything it has still to deliver.
  \<open>rinv\<close> collects the ranges the reader keeps its fields in; the last two are the assertions
  of \<^verbatim>\<open>updateCrcs\<close>.
\<close>

definition bitsOf :: "nat \<Rightarrow> 'a::len word \<Rightarrow> bool list" where
  "bitsOf n w = map (\<lambda>i. bit w (n - Suc i)) [0..<n]"

definition wbits :: "BitOutputStream \<Rightarrow> bool list" where
  "wbits s = concat (map (bitsOf 8) (out s)) @ bitsOf (wBitBufferLen s) (wBitBuffer s)"

definition pendingBytes :: "FlacInput \<Rightarrow> 8 word list" where
  "pendingBytes s =
     (if byteBufferIndex s < byteBufferLen s
      then take (nat (byteBufferLen s - byteBufferIndex s))
             (drop (nat (byteBufferIndex s)) (byteBuffer s))
      else [])
     @ drop (offset s) (data s)"

definition rbits :: "FlacInput \<Rightarrow> bool list" where
  "rbits s = bitsOf (bitBufferLen s) (bitBuffer s) @ concat (map (bitsOf 8) (pendingBytes s))"

definition rinv :: "FlacInput \<Rightarrow> bool" where
  "rinv s \<longleftrightarrow>
     length (byteBuffer s) = BUF_SIZE \<and>
     0 \<le> byteBufferIndex s \<and> byteBufferIndex s \<le> int BUF_SIZE \<and>
     - 1 \<le> byteBufferLen s \<and> byteBufferLen s \<le> int BUF_SIZE \<and>
     (byteBufferLen s = - 1 \<longrightarrow> length (data s) \<le> offset s) \<and>
     bitBufferLen s \<le> 64 \<and>
     0 \<le> crcStartIndex s \<and>
     drop_bit 8 (crc8 s) = 0 \<and> drop_bit 16 (crc16 s) = 0"

section \<open>The standalone CRCs\<close>

text \<open>
  The reference the CRC claims compare with, in the words of the wire format: a CRC of width
  \<open>w\<close> with polynomial \<open>poly\<close> (written with its leading term: \<open>0x107\<close> for CRC-8, \<open>0x18005\<close>
  for CRC-16), computed by shifting left, most significant bit first, from the initial
  value 0, one byte after the other. The values are kept in 32-bit words, wide enough for
  both widths.
\<close>

definition crcBitStandalone :: "nat \<Rightarrow> 32 word \<Rightarrow> 32 word \<Rightarrow> 32 word" where
  "crcBitStandalone w poly c = (if bit c (w - 1) then push_bit 1 c XOR poly else push_bit 1 c)"

definition crcByteStandalone :: "nat \<Rightarrow> 32 word \<Rightarrow> 32 word \<Rightarrow> 8 word \<Rightarrow> 32 word" where
  "crcByteStandalone w poly c b = (crcBitStandalone w poly ^^ 8) (c XOR push_bit (w - 8) (ucast b))"

definition crc8Standalone :: "8 word list \<Rightarrow> 32 word" where
  "crc8Standalone bytes = foldl (crcByteStandalone 8 0x107) 0 bytes"

definition crc16Standalone :: "8 word list \<Rightarrow> 32 word" where
  "crc16Standalone bytes = foldl (crcByteStandalone 16 0x18005) 0 bytes"

section \<open>Auxiliary notions for the proofs\<close>

text \<open>
  What the parsing constructor of \<^verbatim>\<open>StreamInfo\<close> stores in \<^verbatim>\<open>numSamples\<close> when the stream holds
  the 36 bits of \<open>ns\<close>, the upper 18 first, as \<^verbatim>\<open>write\<close> puts them: the two halves as the two
  calls of \<^verbatim>\<open>readUint(18)\<close> deliver them, combined in the order \<open>ord\<close> with a \<^verbatim>\<open>long\<close> of
  \<open>longBits\<close> bits.
\<close>

definition parsedNumSamples :: "operandOrder \<Rightarrow> nat \<Rightarrow> 64 word \<Rightarrow> 64 word" where
  "parsedNumSamples ord longBits ns =
     (let first = (take_bit 18 (ucast (drop_bit 18 ns)) :: 32 word);
          second = (take_bit 18 (ucast (drop_bit 0 ns)) :: 32 word);
          hi = (case ord of LeftFirst \<Rightarrow> first | RightFirst \<Rightarrow> second);
          lo = (case ord of LeftFirst \<Rightarrow> second | RightFirst \<Rightarrow> first)
      in take_bit longBits (push_bit 18 (ucast hi :: 64 word)) OR ucast lo)"

text \<open>
  For the tables of the Rice decoder: the pair of entries which the two initialisers store for
  the symbol \<open>i\<close>; the indices which the inner loop writes for the symbol \<open>i\<close>; and the invariant of
  the two tables taken together, that an index with a non-zero number of consumed bits holds
  the pair of a symbol whose loop wrote it.
\<close>

definition ricePair :: "nat \<Rightarrow> nat \<Rightarrow> 8 word \<times> 32 word" where
  "ricePair param i = (of_nat (riceNumBits param i), riceTableValue i)"

definition riceCovers :: "nat \<Rightarrow> nat \<Rightarrow> nat \<Rightarrow> bool" where
  "riceCovers param i idx \<longleftrightarrow>
     riceNumBits param i \<le> RICE_DECODING_TABLE_BITS \<and>
     (\<exists>j < push_bit (RICE_DECODING_TABLE_BITS - riceNumBits param i) (1::nat).
        idx = push_bit (RICE_DECODING_TABLE_BITS - riceNumBits param i) (riceBits param i) OR j)"

definition ricePairInv :: "nat \<Rightarrow> (8 word \<times> 32 word) list \<Rightarrow> bool" where
  "ricePairInv param table \<longleftrightarrow>
     (\<forall>idx < length table. fst (table ! idx) \<noteq> 0 \<longrightarrow>
        (\<exists>i. riceCovers param i idx \<and> table ! idx = ricePair param i))"

chapter \<open>Properties\<close>

section \<open>Facts about machine words\<close>

lemma drop_bit_word_eq_0_iff: "drop_bit n (w :: 'a::len word) = 0 \<longleftrightarrow> unat w < 2 ^ n"
proof -
  have "drop_bit n w = 0 \<longleftrightarrow> unat (drop_bit n w) = 0" by (simp add: unat_eq_0)
  also have "\<dots> \<longleftrightarrow> unat w div 2 ^ n = 0" by (simp only: unat_drop_bit_eq) (simp add: drop_bit_eq_div)
  also have "\<dots> \<longleftrightarrow> unat w < 2 ^ n" by (simp add: div_eq_0_iff)
  finally show ?thesis .
qed

lemma unat_ucast_16_32: "unat (ucast (w :: 16 word) :: 32 word) = unat w"
  by (simp add: unsigned_ucast_eq take_bit_nat_eq_self_iff)
     (use unsigned_less[of w, where 'a=nat] in simp)

lemma drop_bit_16_ucast16: "drop_bit 16 (ucast (w :: 16 word) :: 32 word) = 0"
proof -
  have "unat w < 2 ^ 16" using unsigned_less[of w, where 'a=nat] by simp
  then show ?thesis by (simp add: drop_bit_word_eq_0_iff unat_ucast_16_32)
qed

lemma max64: "(0xFFFFFFFFFFFFFFFF :: 64 word) = - 1"
  by simp

section \<open>The writer appends bits\<close>

lemma length_bitsOf [simp]: "length (bitsOf n w) = n"
  by (simp add: bitsOf_def)

lemma nth_bitsOf: "i < n \<Longrightarrow> bitsOf n w ! i = bit w (n - Suc i)"
  by (simp add: bitsOf_def)

lemma bitsOf_0 [simp]: "bitsOf 0 w = []"
  by (simp add: bitsOf_def)

lemma bitsOf_eq_iff: "bitsOf n a = bitsOf n b \<longleftrightarrow> (\<forall>j<n. bit a j = bit b j)"
proof
  assume eq: "bitsOf n a = bitsOf n b"
  show "\<forall>j<n. bit a j = bit b j"
  proof (intro allI impI)
    fix j assume j: "j < n"
    then have "bitsOf n a ! (n - Suc j) = bitsOf n b ! (n - Suc j)" using eq by simp
    moreover have "n - Suc (n - Suc j) = j" using j by simp
    ultimately show "bit a j = bit b j" using j by (simp add: nth_bitsOf)
  qed
next
  assume "\<forall>j<n. bit a j = bit b j"
  then show "bitsOf n a = bitsOf n b"
    by (intro nth_equalityI) (simp_all add: nth_bitsOf)
qed

lemma bitsOf_append:
  "bitsOf (m + n) w = bitsOf m (drop_bit n w) @ bitsOf n w"
proof (intro nth_equalityI)
  show "length (bitsOf (m + n) w) = length (bitsOf m (drop_bit n w) @ bitsOf n w)" by simp
next
  fix i assume "i < length (bitsOf (m + n) w)"
  then have i: "i < m + n" by simp
  show "bitsOf (m + n) w ! i = (bitsOf m (drop_bit n w) @ bitsOf n w) ! i"
  proof (cases "i < m")
    case True
    then have "n + (m - Suc i) = m + n - Suc i" by simp
    then show ?thesis using True i by (simp add: nth_append nth_bitsOf bit_drop_bit_eq)
  next
    case False
    then have "n - Suc (i - m) = m + n - Suc i" using i by simp
    then show ?thesis using False i by (simp add: nth_append nth_bitsOf)
  qed
qed

lemma take_bit_eq_bits: "take_bit n (a::'a::len word) = take_bit n b \<longleftrightarrow> (\<forall>j<n. bit a j = bit b j)"
  by (auto simp: bit_eq_iff bit_take_bit_iff dest: bit_imp_le_length)

lemma drop_bit_8_ucast8: "drop_bit 8 (ucast (w :: 8 word) :: 32 word) = 0"
  by (rule bit_word_eqI) (auto simp: bit_simps dest: bit_imp_le_length)

lemma crcShift_Inr: "\<exists>c'. crcShift c = Inr c'"
  by (simp add: crcShift_def Let_def drop_bit_8_ucast8 drop_bit_16_ucast16)

lemma crcShifts_Inr: "\<exists>c'. crcShifts k c = Inr c'"
proof (induction k arbitrary: c)
  case 0 show ?case by simp
next
  case (Suc k)
  obtain c1 where "crcShift c = Inr c1" using crcShift_Inr by blast
  then show ?case using Suc[of c1] by simp
qed

lemma flush_byte_bits:
  assumes "8 \<le> len"
  shows "bitsOf 8 (ucast (drop_bit (len - 8) (bb :: 64 word) AND 0xFF) :: 8 word) @ bitsOf (len - 8) bb
         = bitsOf len bb"
proof -
  have m: "(0xFF :: 64 word) = mask 8" by (simp add: mask_eq_exp_minus_1)
  have "bitsOf 8 (ucast (drop_bit (len - 8) bb AND 0xFF) :: 8 word) = bitsOf 8 (drop_bit (len - 8) bb)"
    unfolding m by (auto simp: bitsOf_eq_iff bit_simps)
  moreover have "bitsOf len bb = bitsOf 8 (drop_bit (len - 8) bb) @ bitsOf (len - 8) bb"
    using bitsOf_append[of 8 "len - 8" bb] assms by simp
  ultimately show ?thesis by simp
qed

lemma flush_loop_total:
  "\<exists>s'. flush_loop s = Inr s' \<and> wbits s' = wbits s \<and> wBitBufferLen s' = wBitBufferLen s mod 8
     \<and> wBitBuffer s' = wBitBuffer s
     \<and> length (out s') = length (out s) + wBitBufferLen s div 8
     \<and> take (length (out s)) (out s') = out s
     \<and> byteCount s' = byteCount s + of_nat (wBitBufferLen s div 8)"
proof (induction s rule: flush_loop.induct)
  case (1 s)
  show ?case
  proof (cases "wBitBufferLen s \<ge> 8")
    case False
    then show ?thesis by (subst flush_loop.simps) simp
  next
    case True
    define len where "len = wBitBufferLen s - 8"
    define b where "b = (ucast (drop_bit len (wBitBuffer s) AND 0xFF) :: 8 word)"
    define c8 where "c8 = wCrc8 s XOR b"
    define c16 where "c16 = (ucast ((ucast (wCrc16 s) :: 32 word) XOR push_bit 8 (ucast b :: 32 word)) :: 16 word)"
    obtain c where c: "crcShifts 8 (c8, c16) = Inr c" using crcShifts_Inr by blast
    define s1 where "s1 = s\<lparr>out := out s @ [b], wBitBufferLen := len,
                                      byteCount := byteCount s + 1, wCrc8 := fst c, wCrc16 := snd c\<rparr>"
    have step: "flush_loop s = flush_loop s1"
      using True c by (subst flush_loop.simps) (simp add: Let_def len_def b_def c8_def c16_def s1_def)
    from "1.IH"[OF True len_def b_def c8_def c16_def c]
    obtain s' where s': "flush_loop s1 = Inr s'" "wbits s' = wbits s1" "wBitBufferLen s' = wBitBufferLen s1 mod 8"
      "wBitBuffer s' = wBitBuffer s1"
      "length (out s') = length (out s1) + wBitBufferLen s1 div 8"
      "take (length (out s1)) (out s') = out s1"
      "byteCount s' = byteCount s1 + of_nat (wBitBufferLen s1 div 8)"
      unfolding s1_def by blast
    have w: "wbits s1 = wbits s"
      using flush_byte_bits[OF True, of "wBitBuffer s"]
      by (simp add: wbits_def s1_def len_def b_def)
    have l: "wBitBufferLen s1 mod 8 = wBitBufferLen s mod 8" "Suc (wBitBufferLen s1 div 8) = wBitBufferLen s div 8"
      using True by (simp_all add: s1_def len_def le_mod_geq le_div_geq)
    have t: "take (length (out s)) (out s') = out s"
    proof -
      have "take (length (out s)) (take (length (out s1)) (out s')) = take (length (out s)) (out s1)"
        using s'(6) by simp
      then show ?thesis by (simp add: s1_def min_def)
    qed
    have bc: "byteCount s' = byteCount s + of_nat (wBitBufferLen s div 8)"
      using s'(7) l(2)[symmetric] by (simp add: s1_def)
    show ?thesis using step s' w l t bc by (simp add: s1_def) 
  qed
qed

lemma flush_total:
  "\<exists>s'. flush s = Inr s' \<and> wbits s' = wbits s \<and> wBitBufferLen s' = wBitBufferLen s mod 8
     \<and> wBitBuffer s' = wBitBuffer s
     \<and> length (out s') = length (out s) + wBitBufferLen s div 8
     \<and> take (length (out s)) (out s') = out s
     \<and> byteCount s' = byteCount s + of_nat (wBitBufferLen s div 8)"
proof -
  obtain s' where s': "flush_loop s = Inr s'" "wbits s' = wbits s" "wBitBufferLen s' = wBitBufferLen s mod 8"
     "wBitBuffer s' = wBitBuffer s"
     "length (out s') = length (out s) + wBitBufferLen s div 8"
     "take (length (out s)) (out s') = out s"
     "byteCount s' = byteCount s + of_nat (wBitBufferLen s div 8)"
    using flush_loop_total by blast
  have "wBitBufferLen s' \<le> 64" using s'(3) by (simp add: mod_le_divisor le_trans[OF mod_le_divisor])
  then show ?thesis using s' by (simp add: flush_def)
qed


lemma writeInt_bits:
  assumes "len + n \<le> 64" "n \<le> 32"
  shows "bitsOf (len + n) (push_bit n (bb :: 64 word) OR ((scast (v :: 32 word) :: 64 word) AND (push_bit n 1 - 1)))
         = bitsOf len bb @ bitsOf n v"
proof -
  define x where "x = push_bit n bb OR ((scast v :: 64 word) AND mask n)"
  have m: "push_bit n 1 - 1 = (mask n :: 64 word)" by (simp add: mask_eq_exp_minus_1)
  have hi: "bitsOf len (drop_bit n x) = bitsOf len bb"
    unfolding bitsOf_eq_iff x_def using assms by (auto simp: bit_simps)
  have lo: "bitsOf n x = bitsOf n v"
    unfolding bitsOf_eq_iff
  proof (intro allI impI)
    fix j assume j: "j < n"
    then have "min 31 j = j" using assms by simp
    then show "bit x j = bit v j"
      using j assms by (simp add: x_def bit_simps)
  qed
  show ?thesis unfolding m using bitsOf_append[of len n x] hi lo by (simp add: x_def)
qed

lemma writeInt_total:
  assumes "0 \<le> n" "n \<le> 32" "wBitBufferLen s \<le> 64"
  shows "\<exists>s'. writeInt n v s = Inr s' \<and> wbits s' = wbits s @ bitsOf (nat n) v \<and> wBitBufferLen s' \<le> 64"
proof -
  define s1 where "s1 = (if int (wBitBufferLen s) + n > 64 then (case flush s of Inr s' \<Rightarrow> s') else s)"
  obtain sf where sf: "flush s = Inr sf" "wbits sf = wbits s" "wBitBufferLen sf = wBitBufferLen s mod 8"
    using flush_total by blast
  have sf8: "wBitBufferLen sf < 8" using sf(3) by simp
  then have sfn: "int (wBitBufferLen sf) + n \<le> 64" using assms by simp
  have pre: "(if int (wBitBufferLen s) + n > 64 then
                (case flush s of
                   Inl e \<Rightarrow> Inl e
                 | Inr s' \<Rightarrow> if int (wBitBufferLen s') + n \<le> 64 then Inr s' else Inl AssertionFailed)
              else Inr s) = Inr s1"
    using sf(1) sfn by (simp add: s1_def)
  have w1: "wbits s1 = wbits s" using sf by (simp add: s1_def)
  have l1: "wBitBufferLen s1 + nat n \<le> 64" using sf sf8 assms by (auto simp: s1_def)
  define bb where "bb = push_bit (nat n) (wBitBuffer s1) OR ((scast v :: 64 word) AND (push_bit (nat n) 1 - 1))"
  have r: "writeInt n v s = Inr (s1\<lparr>wBitBuffer := bb, wBitBufferLen := wBitBufferLen s1 + nat n\<rparr>)"
    unfolding writeInt_def pre using assms l1 by (simp add: Let_def bb_def)
  have "bitsOf (wBitBufferLen s1 + nat n) bb = bitsOf (wBitBufferLen s1) (wBitBuffer s1) @ bitsOf (nat n) v"
    unfolding bb_def using writeInt_bits[OF l1] assms by simp
  then have "wbits (s1\<lparr>wBitBuffer := bb, wBitBufferLen := wBitBufferLen s1 + nat n\<rparr>) = wbits s @ bitsOf (nat n) v"
    using w1 by (simp add: wbits_def)
  then show ?thesis using r l1 by simp
qed

lemma writeInts_total:
  assumes "\<forall>nv \<in> set nvs. 0 \<le> fst nv \<and> fst nv \<le> 32" "wBitBufferLen s \<le> 64"
  shows "\<exists>s'. writeInts nvs s = Inr s' \<and>
              wbits s' = wbits s @ concat (map (\<lambda>nv. bitsOf (nat (fst nv)) (snd nv)) nvs) \<and>
              wBitBufferLen s' \<le> 64"
  using assms
proof (induction nvs arbitrary: s)
  case Nil
  then show ?case by simp
next
  case (Cons nv nvs)
  obtain s1 where s1: "writeInt (fst nv) (snd nv) s = Inr s1"
      "wbits s1 = wbits s @ bitsOf (nat (fst nv)) (snd nv)" "wBitBufferLen s1 \<le> 64"
    using writeInt_total[of "fst nv" s "snd nv"] Cons.prems by auto
  obtain s' where "writeInts nvs s1 = Inr s'"
      "wbits s' = wbits s1 @ concat (map (\<lambda>nv. bitsOf (nat (fst nv)) (snd nv)) nvs)"
      "wBitBufferLen s' \<le> 64"
    using Cons.IH[of s1] Cons.prems s1(3) by auto
  then show ?case using s1 by simp
qed

section \<open>The reader delivers bits\<close>

lemma uint_bound_256: "unat (x :: 32 word) < 2 ^ 8 \<Longrightarrow> 0 \<le> uint x \<and> uint x < 256"
proof -
  assume "unat x < 2 ^ 8"
  then have a: "unat x < 256" by simp
  have "uint x = int (unat x)" by (rule uint_nat)
  then show ?thesis using a by linarith
qed

lemma drop_bit_0_bit: "drop_bit n (w :: 'a::len word) = 0 \<Longrightarrow> n \<le> j \<Longrightarrow> \<not> bit w j"
proof -
  assume a: "drop_bit n w = 0" "n \<le> j"
  have "bit (drop_bit n w) (j - n) = bit w j" using a(2) by (simp add: bit_drop_bit_eq)
  then show ?thesis using a(1) by simp
qed

lemma crc8_index:
  assumes "drop_bit 8 (c :: 16 word) = 0"
  shows "0 \<le> uint ((ucast c :: 32 word) XOR ucast (b :: 8 word)) \<and> uint ((ucast c :: 32 word) XOR ucast b) < 256"
proof -
  have "drop_bit 8 ((ucast c :: 32 word) XOR ucast b) = 0"
    using drop_bit_0_bit[OF assms]
    by (intro bit_word_eqI) (auto simp: bit_simps dest: bit_imp_le_length)
  then have "unat ((ucast c :: 32 word) XOR ucast b) < 2 ^ 8" by (rule drop_bit_word_eq_0_iff[THEN iffD1])
  then show ?thesis by (rule uint_bound_256)
qed

lemma crc16_index:
  assumes "drop_bit 16 (c :: 32 word) = 0"
  shows "0 \<le> uint (drop_bit 8 c XOR ucast (b :: 8 word)) \<and> uint (drop_bit 8 c XOR ucast b) < 256"
proof -
  have "drop_bit 8 (drop_bit 8 c XOR ucast b) = 0"
    using drop_bit_0_bit[OF assms]
    by (intro bit_word_eqI) (auto simp: bit_simps dest: bit_imp_le_length)
  then have "unat (drop_bit 8 c XOR ucast b) < 2 ^ 8" by (rule drop_bit_word_eq_0_iff[THEN iffD1])
  then show ?thesis by (rule uint_bound_256)
qed

lemma length_CRC8_TABLE [simp]: "length CRC8_TABLE = 256"
  by (simp add: CRC8_TABLE_def)

lemma length_CRC16_TABLE [simp]: "length CRC16_TABLE = 256"
  by (simp add: CRC16_TABLE_def)

lemma crc8_new_fits: "drop_bit 8 (ucast ((t :: 8 word) AND 0xFF) :: 16 word) = 0"
  by (intro bit_word_eqI) (auto simp: bit_simps dest: bit_imp_le_length)

lemma crc16_new_fits: "drop_bit 16 ((ucast (t :: 16 word) :: 32 word) XOR push_bit 8 (c AND 0xFF)) = 0"
proof -
  have m: "(0xFF :: 32 word) = mask 8" by (simp add: mask_eq_exp_minus_1)
  show ?thesis unfolding m
    by (intro bit_word_eqI) (auto simp: bit_simps dest: bit_imp_le_length)
qed

lemma updateCrcs_byte_ok:
  assumes "0 \<le> i" "i < int (length (byteBuffer s))" "drop_bit 8 (crc8 s) = 0" "drop_bit 16 (crc16 s) = 0"
  shows "\<exists>c8 c16. updateCrcs_byte i s = Inr (s\<lparr>crc8 := c8, crc16 := c16\<rparr>)
            \<and> drop_bit 8 c8 = 0 \<and> drop_bit 16 c16 = 0"
proof -
  define b where "b = (byteBuffer s ! nat i) AND 0xFF"
  have g1: "arrayGet (byteBuffer s) i = Inr (byteBuffer s ! nat i)"
    using assms by (simp add: arrayGet_def)
  obtain t8 where t8: "arrayGet CRC8_TABLE (uint ((ucast (crc8 s) :: 32 word) XOR ucast b)) = Inr t8"
    using crc8_index[OF assms(3), of b] by (simp add: arrayGet_def)
  obtain t16 where t16: "arrayGet CRC16_TABLE (uint (drop_bit 8 (crc16 s) XOR ucast b)) = Inr t16"
    using crc16_index[OF assms(4), of b] by (simp add: arrayGet_def)
  define c8 where "c8 = (ucast (t8 AND 0xFF) :: 16 word)"
  define c16 where "c16 = (ucast t16 :: 32 word) XOR push_bit 8 (crc16 s AND 0xFF)"
  have f: "drop_bit 8 c8 = 0" "drop_bit 16 c16 = 0"
    unfolding c8_def c16_def by (rule crc8_new_fits, rule crc16_new_fits)
  have "updateCrcs_byte i s = Inr (s\<lparr>crc8 := c8, crc16 := c16\<rparr>)"
    unfolding updateCrcs_byte_def g1
    using t8 t16 f by (simp add: Let_def b_def c8_def c16_def)
  then show ?thesis using f by blast
qed

lemma updateCrcs_loop_ok:
  assumes "0 \<le> i" "e \<le> int (length (byteBuffer s))" "drop_bit 8 (crc8 s) = 0" "drop_bit 16 (crc16 s) = 0"
  shows "\<exists>c8 c16. updateCrcs_loop i e s = Inr (s\<lparr>crc8 := c8, crc16 := c16\<rparr>)
            \<and> drop_bit 8 c8 = 0 \<and> drop_bit 16 c16 = 0"
  using assms
proof (induction i e s rule: updateCrcs_loop.induct)
  case (1 i e s)
  show ?case
  proof (cases "i < e")
    case False
    have "s = s\<lparr>crc8 := crc8 s, crc16 := crc16 s\<rparr>" by simp
    then show ?thesis using False "1.prems"
      by (subst updateCrcs_loop.simps) (metis (full_types))
  next
    case True
    obtain a b where ab: "updateCrcs_byte i s = Inr (s\<lparr>crc8 := a, crc16 := b\<rparr>)"
        "drop_bit 8 a = 0" "drop_bit 16 b = 0"
      using updateCrcs_byte_ok[of i s] "1.prems" True by auto
    obtain c d where cd: "updateCrcs_loop (i + 1) e (s\<lparr>crc8 := a, crc16 := b\<rparr>)
          = Inr (s\<lparr>crc8 := a, crc16 := b\<rparr>\<lparr>crc8 := c, crc16 := d\<rparr>)"
        "drop_bit 8 c = 0" "drop_bit 16 d = 0"
      using "1.IH"[OF True ab(1)] "1.prems" ab by auto
    have "updateCrcs_loop i e s = Inr (s\<lparr>crc8 := c, crc16 := d\<rparr>)"
      using True ab cd by (subst updateCrcs_loop.simps) simp
    then show ?thesis using cd by blast
  qed
qed

lemma updateCrcs_ok:
  assumes "0 \<le> crcStartIndex s" "byteBufferIndex s - u \<le> int (length (byteBuffer s))"
    "drop_bit 8 (crc8 s) = 0" "drop_bit 16 (crc16 s) = 0"
  shows "\<exists>c8 c16. updateCrcs u s = Inr (s\<lparr>crc8 := c8, crc16 := c16, crcStartIndex := byteBufferIndex s - u\<rparr>)
            \<and> drop_bit 8 c8 = 0 \<and> drop_bit 16 c16 = 0"
proof -
  obtain c d where "updateCrcs_loop (crcStartIndex s) (byteBufferIndex s - u) s = Inr (s\<lparr>crc8 := c, crc16 := d\<rparr>)"
      "drop_bit 8 c = 0" "drop_bit 16 d = 0"
    using updateCrcs_loop_ok[OF assms] by blast
  then have "updateCrcs u s = Inr (s\<lparr>crc8 := c, crc16 := d, crcStartIndex := byteBufferIndex s - u\<rparr>)
      \<and> drop_bit 8 c = 0 \<and> drop_bit 16 d = 0"
    by (simp add: updateCrcs_def Let_def)
  then show ?thesis by blast
qed

lemma readUnderlying_next:
  assumes "rinv s" "pendingBytes s = x # xs"
  shows "\<exists>s'. readUnderlying s = Inr (uint x, s') \<and> rinv s' \<and> pendingBytes s' = xs \<and>
              bitBuffer s' = bitBuffer s \<and> bitBufferLen s' = bitBufferLen s \<and> data s' = data s"
proof (cases "byteBufferIndex s < byteBufferLen s")
  case True
  have len: "length (byteBuffer s) = BUF_SIZE" using assms(1) by (simp add: rinv_def)
  have idx: "0 \<le> byteBufferIndex s" "byteBufferLen s \<le> int BUF_SIZE" using assms(1) by (simp_all add: rinv_def)
  define k where "k = nat (byteBufferIndex s)"
  define m where "m = nat (byteBufferLen s - byteBufferIndex s)"
  have km: "k < length (byteBuffer s)" "0 < m" "k + m \<le> length (byteBuffer s)"
    using True idx len by (simp_all add: k_def m_def)
  have pb: "pendingBytes s = take m (drop k (byteBuffer s)) @ drop (offset s) (data s)"
    using True by (simp add: pendingBytes_def k_def m_def)
  obtain m' where m': "m = Suc m'" using km(2) by (cases m) auto
  have dk: "drop k (byteBuffer s) = byteBuffer s ! k # drop (Suc k) (byteBuffer s)"
    using km(1) by (simp add: Cons_nth_drop_Suc)
  have x: "x = byteBuffer s ! k" and xs: "xs = take m' (drop (Suc k) (byteBuffer s)) @ drop (offset s) (data s)"
    using assms(2) pb dk m' by auto
  define s' where "s' = s\<lparr>byteBufferIndex := byteBufferIndex s + 1\<rparr>"
  have g: "arrayGet (byteBuffer s) (byteBufferIndex s) = Inr x"
    using km idx x by (simp add: arrayGet_def k_def)
  have m8: "(0xFF :: 8 word) = - 1" by simp
  have r: "readUnderlying s = Inr (uint x, s')"
    using True g unfolding readUnderlying_def m8 by (simp add: s'_def)
  have "nat (byteBufferIndex s + 1) = Suc k" "nat (byteBufferLen s - (byteBufferIndex s + 1)) = m'"
    using idx m' by (simp_all add: k_def m_def)
  then have p': "pendingBytes s' = xs"
    using xs by (auto simp: pendingBytes_def s'_def)
  have "rinv s'" using assms(1) True by (auto simp: rinv_def s'_def)
  then show ?thesis using r p' by (auto simp: s'_def)
next
  case False
  then have pb: "pendingBytes s = drop (offset s) (data s)" by (simp add: pendingBytes_def)
  then have off: "offset s < length (data s)" using assms(2) by (cases "offset s < length (data s)") auto
  then have ne: "byteBufferLen s \<noteq> - 1" using assms(1) by (auto simp: rinv_def)
  define s0 where "s0 = s\<lparr>byteBufferStartPos := byteBufferStartPos s + word_of_int (byteBufferLen s)\<rparr>"
  have "0 \<le> crcStartIndex s0" "byteBufferIndex s0 - 0 \<le> int (length (byteBuffer s0))"
      "drop_bit 8 (crc8 s0) = 0" "drop_bit 16 (crc16 s0) = 0"
    using assms(1) by (simp_all add: rinv_def s0_def)
  from updateCrcs_ok[OF this] obtain c8 c16 where
    u: "updateCrcs 0 s0 = Inr (s0\<lparr>crc8 := c8, crc16 := c16, crcStartIndex := byteBufferIndex s0\<rparr>)"
    and c: "drop_bit 8 c8 = 0" "drop_bit 16 c16 = 0" by auto
  define s1 where "s1 = s0\<lparr>crc8 := c8, crc16 := c16, crcStartIndex := byteBufferIndex s0\<rparr>"
  define n where "n = min (length (data s) - offset s) BUF_SIZE"
  have n: "0 < n" "n \<le> BUF_SIZE" "n \<le> length (data s) - offset s"
    using off by (simp_all add: n_def BUF_SIZE_def)
  define buf where "buf = take n (drop (offset s) (data s)) @ drop n (byteBuffer s)"
  have len: "length (byteBuffer s) = BUF_SIZE" using assms(1) by (simp add: rinv_def)
  have lbuf: "length buf = BUF_SIZE" using n len by (simp add: buf_def)
  have rb: "readUnderlyingBytes s1 = (int n, s1\<lparr>byteBuffer := buf, offset := offset s + n\<rparr>)"
    using n by (simp add: readUnderlyingBytes_def Let_def s1_def s0_def n_def[symmetric] buf_def)
  have tk: "take n (drop (offset s) (data s)) = x # take (n - 1) xs"
  proof -
    have "take n (x # xs) = x # take (n - 1) xs" using n(1) by (cases n) auto
    then show ?thesis using assms(2) pb by simp
  qed
  then have b0: "buf ! 0 = x" by (simp add: buf_def)
  define s' where "s' = s1\<lparr>byteBuffer := buf, offset := offset s + n, byteBufferLen := int n,
                           crcStartIndex := 0, byteBufferIndex := 1\<rparr>"
  have g: "arrayGet buf 0 = Inr x" using lbuf b0 by (simp add: arrayGet_def BUF_SIZE_def)
  have m8: "(0xFF :: 8 word) = - 1" by simp
  have r: "readUnderlying s = Inr (uint x, s')"
    unfolding readUnderlying_def m8
    using False ne n g
    by (simp add: Let_def u[unfolded s0_def, simplified] rb[unfolded s1_def s0_def, simplified] s'_def s1_def s0_def)
  have xs: "xs = drop (Suc (offset s)) (data s)"
    using assms(2) pb by (metis drop_Suc list.sel(3) tl_drop)
  have lxs: "n - 1 \<le> length xs" using n by (simp add: xs)
  have "take (n - 1) (drop 1 buf) = take (n - 1) xs"
    using n lxs by (simp add: buf_def tk)
  moreover have "take (n - 1) xs @ drop (offset s + n) (data s) = xs"
  proof -
    have "drop (offset s + n) (data s) = drop (n - 1) xs"
      using n(1) by (simp add: xs add.commute)
    then show ?thesis by simp
  qed
  ultimately have p': "pendingBytes s' = xs"
    using n by (auto simp: pendingBytes_def s'_def s1_def s0_def nat_diff_distrib)
  have "rinv s'"
    using assms(1) n lbuf c by (auto simp: rinv_def s'_def s1_def s0_def)
  then show ?thesis using r p' by (auto simp: s'_def s1_def s0_def)
qed

lemma readUnderlying_eof:
  assumes "rinv s" "pendingBytes s = []"
  shows "\<exists>s'. readUnderlying s = Inr (- 1, s') \<and> rinv s' \<and> pendingBytes s' = [] \<and>
              bitBuffer s' = bitBuffer s \<and> bitBufferLen s' = bitBufferLen s \<and> data s' = data s"
proof -
  have off: "length (data s) \<le> offset s" using assms(2) by (simp add: pendingBytes_def)
  have nlt: "\<not> byteBufferIndex s < byteBufferLen s"
  proof
    assume lt: "byteBufferIndex s < byteBufferLen s"
    have "length (byteBuffer s) = BUF_SIZE" "0 \<le> byteBufferIndex s" "byteBufferLen s \<le> int BUF_SIZE"
      using assms(1) by (simp_all add: rinv_def)
    then have "take (nat (byteBufferLen s - byteBufferIndex s)) (drop (nat (byteBufferIndex s)) (byteBuffer s)) \<noteq> []"
      using lt by auto
    then show False using assms(2) lt by (simp add: pendingBytes_def)
  qed
  show ?thesis
  proof (cases "byteBufferLen s = - 1")
    case True
    then show ?thesis using nlt assms by (simp add: readUnderlying_def)
  next
    case ne: False
    define s0 where "s0 = s\<lparr>byteBufferStartPos := byteBufferStartPos s + word_of_int (byteBufferLen s)\<rparr>"
    have "0 \<le> crcStartIndex s0" "byteBufferIndex s0 - 0 \<le> int (length (byteBuffer s0))"
        "drop_bit 8 (crc8 s0) = 0" "drop_bit 16 (crc16 s0) = 0"
      using assms(1) by (simp_all add: rinv_def s0_def)
    from updateCrcs_ok[OF this] obtain c8 c16 where
      u: "updateCrcs 0 s0 = Inr (s0\<lparr>crc8 := c8, crc16 := c16, crcStartIndex := byteBufferIndex s0\<rparr>)"
      and c: "drop_bit 8 c8 = 0" "drop_bit 16 c16 = 0" by auto
    define s1 where "s1 = s0\<lparr>crc8 := c8, crc16 := c16, crcStartIndex := byteBufferIndex s0\<rparr>"
    have rb: "readUnderlyingBytes s1 = (- 1, s1)"
      using off by (simp add: readUnderlyingBytes_def Let_def s1_def s0_def)
    define s' where "s' = s1\<lparr>byteBufferLen := - 1, crcStartIndex := 0\<rparr>"
    have r: "readUnderlying s = Inr (- 1, s')"
      unfolding readUnderlying_def
      using nlt ne
      by (simp add: Let_def u[unfolded s0_def, simplified] rb[unfolded s1_def s0_def, simplified] s'_def s1_def s0_def)
    have p': "pendingBytes s' = []" using off assms(1) by (simp add: pendingBytes_def s'_def s1_def s0_def rinv_def)
    have "rinv s'" using assms(1) off c by (auto simp: rinv_def s'_def s1_def s0_def)
    then show ?thesis using r p' by (auto simp: s'_def s1_def s0_def)
  qed
qed

lemma pendingBytes_frame [simp]:
  "pendingBytes (s\<lparr>bitBuffer := a\<rparr>) = pendingBytes s"
  "pendingBytes (s\<lparr>bitBufferLen := b\<rparr>) = pendingBytes s"
  "pendingBytes (s\<lparr>crc8 := c\<rparr>) = pendingBytes s"
  "pendingBytes (s\<lparr>crc16 := d\<rparr>) = pendingBytes s"
  "pendingBytes (s\<lparr>crcStartIndex := e\<rparr>) = pendingBytes s"
  "pendingBytes (s\<lparr>byteBufferStartPos := f\<rparr>) = pendingBytes s"
  by (simp_all add: pendingBytes_def)

lemma length_rbits: "length (rbits s) = bitBufferLen s + 8 * length (pendingBytes s)"
  by (simp add: rbits_def length_concat comp_def sum_list_triv)

lemma readByte_bits:
  assumes "len + 8 \<le> 64"
  shows "bitsOf (len + 8) (push_bit 8 (bb :: 64 word) OR word_of_int (uint (x :: 8 word)))
         = bitsOf len bb @ bitsOf 8 x"
proof -
  define y where "y = push_bit 8 bb OR (ucast x :: 64 word)"
  have hi: "bitsOf len (drop_bit 8 y) = bitsOf len bb"
    unfolding bitsOf_eq_iff y_def using assms by (auto simp: bit_simps dest: bit_imp_le_length)
  have lo: "bitsOf 8 y = bitsOf 8 x"
    unfolding bitsOf_eq_iff y_def by (auto simp: bit_simps)
  show ?thesis using bitsOf_append[of len 8 y] hi lo by (simp add: y_def)
qed

lemma readUint_fill_ok:
  assumes "rinv s" "n \<le> 32" "n \<le> length (rbits s)"
  shows "\<exists>s'. readUint_fill n s = Inr s' \<and> rinv s' \<and> rbits s' = rbits s \<and> n \<le> bitBufferLen s' \<and>
              data s' = data s \<and> (bitBufferLen s < n \<longrightarrow> bitBufferLen s' < n + 8) \<and>
              (n \<le> bitBufferLen s \<longrightarrow> s' = s)"
  using assms
proof (induction n s rule: readUint_fill.induct)
  case (1 n s)
  show ?case
  proof (cases "bitBufferLen s < n")
    case False
    then show ?thesis using "1.prems" by (subst readUint_fill.simps) simp
  next
    case True
    then have "pendingBytes s \<noteq> []" using "1.prems"(3) by (auto simp: length_rbits)
    then obtain x xs where pb: "pendingBytes s = x # xs" by (cases "pendingBytes s") auto
    from readUnderlying_next[OF "1.prems"(1) pb] obtain s1 where
      s1: "readUnderlying s = Inr (uint x, s1)" "rinv s1" "pendingBytes s1 = xs"
          "bitBuffer s1 = bitBuffer s" "bitBufferLen s1 = bitBufferLen s" "data s1 = data s"
      by blast
    define s2 where "s2 = s1\<lparr>bitBuffer := push_bit 8 (bitBuffer s1) OR word_of_int (uint x),
                              bitBufferLen := bitBufferLen s1 + 8\<rparr>"
    have ne: "uint x \<noteq> - 1" using uint_ge_0[of x] by linarith
    have l2: "bitBufferLen s2 \<le> 64" using True "1.prems"(2) s1(5) by (simp add: s2_def)
    have step: "readUint_fill n s = readUint_fill n s2"
      using True s1(1) ne l2 by (subst readUint_fill.simps) (simp add: Let_def s2_def)
    have inv2: "rinv s2" using s1(2) l2 by (simp add: rinv_def s2_def)
    have "bitsOf (bitBufferLen s + 8) (push_bit 8 (bitBuffer s) OR word_of_int (uint x))
            = bitsOf (bitBufferLen s) (bitBuffer s) @ bitsOf 8 x"
      using readByte_bits[of "bitBufferLen s"] l2 s1(5) by (simp add: s2_def)
    moreover have p2: "pendingBytes s2 = xs" using s1(3) by (simp add: s2_def)
    ultimately have rb2: "rbits s2 = rbits s"
      using s1(4,5) pb by (simp add: rbits_def s2_def)
    have "\<exists>s'. readUint_fill n s2 = Inr s' \<and> rinv s' \<and> rbits s' = rbits s2 \<and> n \<le> bitBufferLen s' \<and>
              data s' = data s2 \<and> (bitBufferLen s2 < n \<longrightarrow> bitBufferLen s' < n + 8) \<and>
              (n \<le> bitBufferLen s2 \<longrightarrow> s' = s2)"
      using "1.IH"[OF True s1(1) refl ne s2_def[unfolded s1(4,5), folded s1(4,5)] l2 inv2 "1.prems"(2)] rb2 "1.prems"(3)
      by simp
    then obtain s' where s': "readUint_fill n s2 = Inr s'" "rinv s'" "rbits s' = rbits s2" "n \<le> bitBufferLen s'"
        "data s' = data s2" "bitBufferLen s2 < n \<longrightarrow> bitBufferLen s' < n + 8" "n \<le> bitBufferLen s2 \<longrightarrow> s' = s2"
      by blast
    have "bitBufferLen s' < n + 8"
    proof (cases "bitBufferLen s2 < n")
      case True then show ?thesis using s'(6) by simp
    next
      case False
      then have "s' = s2" using s'(7) by simp
      then show ?thesis using \<open>bitBufferLen s < n\<close> s1(5) by (simp add: s2_def)
    qed
    then show ?thesis using step s' rb2 s1(6) True by (simp add: s2_def)
  qed
qed

lemma mask_32: "push_bit n 1 - 1 = (mask n :: 32 word)"
  by (simp add: mask_eq_exp_minus_1)

lemma readUint_ok:
  assumes "rinv s" "n \<le> 32" "n \<le> length (rbits s)"
  shows "\<exists>r s'. readUint n s = Inr (r, s') \<and> rinv s' \<and> rbits s' = drop n (rbits s) \<and>
                bitsOf n r = take n (rbits s) \<and> take_bit n r = r \<and> data s' = data s \<and>
                (bitBufferLen s < n \<longrightarrow> bitBufferLen s' < 8) \<and>
                (n \<le> bitBufferLen s \<longrightarrow> s' = s\<lparr>bitBufferLen := bitBufferLen s - n\<rparr>)"
proof -
  from readUint_fill_ok[OF assms] obtain s1 where
    s1: "readUint_fill n s = Inr s1" "rinv s1" "rbits s1 = rbits s" "n \<le> bitBufferLen s1"
        "data s1 = data s" "bitBufferLen s < n \<longrightarrow> bitBufferLen s1 < n + 8"
        "n \<le> bitBufferLen s \<longrightarrow> s1 = s"
    by blast
  define len where "len = bitBufferLen s1"
  define bb where "bb = bitBuffer s1"
  define r0 where "r0 = (ucast (drop_bit (len - n) bb) :: 32 word)"
  define r where "r = (if n \<noteq> 32 then r0 AND (push_bit n 1 - 1) else r0)"
  have r_alt: "r = take_bit n r0"
  proof (cases "n = 32")
    case True
    then show ?thesis by (simp add: r_def take_bit_word_beyond_length_eq)
  next
    case False
    then show ?thesis unfolding r_def mask_32 by (simp add: take_bit_eq_mask)
  qed
  have tb: "take_bit n r = r" by (simp add: r_alt)
  have db: "n \<noteq> 32 \<Longrightarrow> drop_bit n r = 0"
    using tb by (simp add: take_bit_eq_self_iff_drop_bit_eq_0)
  have len64: "len \<le> 64" using s1(2) by (simp add: rinv_def len_def)
  define s' where "s' = s1\<lparr>bitBufferLen := len - n\<rparr>"
  have r32: "n = 32 \<Longrightarrow> r0 = r" by (simp add: r_def)
  have lenn: "len - n \<le> 64" using len64 by simp
  have res: "readUint n s = Inr (r, s')"
    unfolding readUint_def using assms(2) s1(1) db r32 lenn
    by (auto simp: Let_def len_def[symmetric] bb_def[symmetric] r0_def[symmetric] r_def[symmetric] s'_def)
  have split: "bitsOf len bb = bitsOf n (drop_bit (len - n) bb) @ bitsOf (len - n) bb"
    using bitsOf_append[of n "len - n" bb] s1(4) by (simp add: len_def)
  have rbits1: "bitsOf n r = bitsOf n (drop_bit (len - n) bb)"
    unfolding bitsOf_eq_iff r_alt r0_def using assms(2) by (auto simp: bit_simps)
  have rb: "rbits s1 = bitsOf n r @ (bitsOf (len - n) bb @ concat (map (bitsOf 8) (pendingBytes s1)))"
    using split rbits1 by (simp add: rbits_def len_def bb_def)
  have rb': "rbits s' = bitsOf (len - n) bb @ concat (map (bitsOf 8) (pendingBytes s1))"
    by (simp add: rbits_def s'_def bb_def)
  have t: "take n (rbits s) = bitsOf n r" and d: "drop n (rbits s) = rbits s'"
    using rb rb' s1(3) by simp_all
  have inv': "rinv s'" using s1(2) len64 by (simp add: rinv_def s'_def)
  have l8: "bitBufferLen s < n \<longrightarrow> bitBufferLen s' < 8"
    using s1(6) s1(4) by (auto simp: s'_def len_def)
  have same: "n \<le> bitBufferLen s \<longrightarrow> s' = s\<lparr>bitBufferLen := bitBufferLen s - n\<rparr>"
    using s1(7) by (auto simp: s'_def len_def)
  show ?thesis using res inv' t d tb s1(5) l8 same by (simp add: s'_def)
qed

lemma bits_take_bit_eq:
  assumes "bitsOf n (r :: 'a::len word) = bitsOf n v" "take_bit n r = r"
  shows "r = take_bit n v"
proof -
  have "take_bit n r = take_bit n v" using assms(1) by (simp add: bitsOf_eq_iff take_bit_eq_bits)
  then show ?thesis using assms(2) by simp
qed

lemma readUint_append:
  assumes "rinv s" "n \<le> 32" "rbits s = bitsOf n (v :: 32 word) @ rest"
  shows "\<exists>s'. readUint n s = Inr (take_bit n v, s') \<and> rinv s' \<and> rbits s' = rest \<and> data s' = data s"
proof -
  have "n \<le> length (rbits s)" using assms(3) by simp
  from readUint_ok[OF assms(1,2) this] obtain r s' where
    r: "readUint n s = Inr (r, s')" "rinv s'" "rbits s' = drop n (rbits s)"
       "bitsOf n r = take n (rbits s)" "take_bit n r = r" "data s' = data s"
    by blast
  have "bitsOf n r = bitsOf n v" using r(4) assms(3) by simp
  then have "r = take_bit n v" using r(5) by (rule bits_take_bit_eq)
  then show ?thesis using r assms(3) by simp
qed

lemma ucast_take_bit_8: "(ucast (take_bit 8 (ucast (b :: 8 word) :: 32 word)) :: 8 word) = b"
  by (rule bit_word_eqI) (auto simp: bit_simps)

lemma bitsOf_8_ucast: "bitsOf 8 (ucast (b :: 8 word) :: 32 word) = bitsOf 8 b"
  by (auto simp: bitsOf_eq_iff bit_simps)

lemma readFully_loop_append:
  assumes "rinv s" "rbits s = concat (map (bitsOf 8) (bs :: 8 word list)) @ rest"
  shows "\<exists>s'. readFully_loop (length bs) s = Inr (bs, s') \<and> rinv s' \<and> rbits s' = rest \<and> data s' = data s"
  using assms
proof (induction bs arbitrary: s)
  case Nil
  then show ?case by simp
next
  case (Cons b bs)
  have "rbits s = bitsOf 8 (ucast b :: 32 word) @ (concat (map (bitsOf 8) bs) @ rest)"
    using Cons.prems(2) by (simp add: bitsOf_8_ucast)
  from readUint_append[OF Cons.prems(1) _ this] obtain s1 where
    s1: "readUint 8 s = Inr (take_bit 8 (ucast b), s1)" "rinv s1"
        "rbits s1 = concat (map (bitsOf 8) bs) @ rest" "data s1 = data s"
    by auto
  from Cons.IH[OF s1(2,3)] obtain s' where
    "readFully_loop (length bs) s1 = Inr (bs, s')" "rinv s'" "rbits s' = rest" "data s' = data s1"
    by blast
  then show ?case using s1 by (simp add: ucast_take_bit_8)
qed

lemma aligned_rbits: "bitBufferLen s mod 8 = length (rbits s) mod 8"
  by (simp add: length_rbits)

lemma readFully_append:
  assumes "rinv s" "rbits s = concat (map (bitsOf 8) (bs :: 8 word list)) @ rest" "length rest mod 8 = 0"
  shows "\<exists>s'. readFully (length bs) s = Inr (bs, s') \<and> rinv s' \<and> rbits s' = rest \<and> data s' = data s"
proof -
  have "length (rbits s) mod 8 = 0"
    using assms(2,3) by (simp add: length_concat comp_def sum_list_triv)
  then have "checkByteAligned s = Inr ()" by (simp add: checkByteAligned_def aligned_rbits)
  then show ?thesis using readFully_loop_append[OF assms(1,2)] by (simp add: readFully_def)
qed

lemma rinv_new: "rinv (newByteArrayFlacInput b)"
  by (simp add: rinv_def newByteArrayFlacInput_def BUF_SIZE_def)

lemma rbits_new: "rbits (newByteArrayFlacInput b) = concat (map (bitsOf 8) b)"
  by (simp add: rbits_def pendingBytes_def newByteArrayFlacInput_def)

section \<open>Bytes and bits; the fields of a stream info block\<close>

lemma bitsOf_8_inj: "bitsOf 8 (x :: 8 word) = bitsOf 8 y \<Longrightarrow> x = y"
  by (rule bit_word_eqI) (simp add: bitsOf_eq_iff)

lemma length_bytes_bits: "length (concat (map (bitsOf 8) (xs :: 8 word list))) = 8 * length xs"
  by (simp add: length_concat comp_def sum_list_triv)

lemma bytes_of_bits_split:
  "concat (map (bitsOf 8) (xs :: 8 word list)) = concat (map (bitsOf 8) ys) @ B
   \<Longrightarrow> \<exists>zs. xs = ys @ zs \<and> concat (map (bitsOf 8) zs) = B"
proof (induction ys arbitrary: xs)
  case Nil
  then show ?case by simp
next
  case (Cons y ys)
  have "length (concat (map (bitsOf 8) xs)) = length (concat (map (bitsOf 8) (y # ys)) @ B)"
    using Cons.prems by simp
  then have "xs \<noteq> []" by auto
  then obtain x xs' where xs: "xs = x # xs'" by (cases xs) auto
  have eq: "bitsOf 8 x @ concat (map (bitsOf 8) xs') = bitsOf 8 y @ (concat (map (bitsOf 8) ys) @ B)"
    using Cons.prems xs by simp
  then have "bitsOf 8 x = bitsOf 8 y \<and> concat (map (bitsOf 8) xs') = concat (map (bitsOf 8) ys) @ B"
    by (intro append_eq_append_conv[THEN iffD1]) simp_all
  then show ?case using Cons.IH[of xs'] xs bitsOf_8_inj by auto
qed

lemma bytes_of_bits_inj:
  "concat (map (bitsOf 8) (xs :: 8 word list)) = concat (map (bitsOf 8) ys) \<Longrightarrow> xs = ys"
proof -
  assume "concat (map (bitsOf 8) xs) = concat (map (bitsOf 8) ys)"
  then obtain zs where zs: "xs = ys @ zs" "concat (map (bitsOf 8) zs) = []"
    using bytes_of_bits_split[of xs ys "[]"] by auto
  have "length (concat (map (bitsOf 8) zs)) = 8 * length zs" by (rule length_bytes_bits)
  then have "zs = []" using zs(2) by simp
  then show ?thesis using zs(1) by simp
qed

lemma take_bytes_bits:
  "take (8 * k) (concat (map (bitsOf 8) (xs :: 8 word list))) = concat (map (bitsOf 8) (take k xs))"
proof (induction xs arbitrary: k)
  case Nil
  then show ?case by simp
next
  case (Cons x xs)
  show ?case
  proof (cases k)
    case 0 then show ?thesis by simp
  next
    case (Suc k')
    have "take (8 * Suc k') (bitsOf 8 x @ concat (map (bitsOf 8) xs))
          = bitsOf 8 x @ take (8 * k') (concat (map (bitsOf 8) xs))"
      by (simp add: take_append)
    then show ?thesis using Cons.IH[of k'] Suc by simp
  qed
qed

lemma drop_bytes_bits:
  "drop (8 * k) (concat (map (bitsOf 8) (xs :: 8 word list))) = concat (map (bitsOf 8) (drop k xs))"
proof (induction xs arbitrary: k)
  case Nil
  then show ?case by simp
next
  case (Cons x xs)
  show ?case
  proof (cases k)
    case 0 then show ?thesis by simp
  next
    case (Suc k')
    have "drop (8 * Suc k') (bitsOf 8 x @ concat (map (bitsOf 8) xs))
          = drop (8 * k') (concat (map (bitsOf 8) xs))"
      by (simp add: drop_append)
    then show ?thesis using Cons.IH[of k'] Suc by simp
  qed
qed

lemma length_wbits: "length (wbits s) = 8 * length (out s) + wBitBufferLen s"
  by (simp add: wbits_def length_bytes_bits)

lemma take_bit_self_unat: "unat (w :: 'a::len word) < 2 ^ n \<Longrightarrow> take_bit n w = w"
  by (simp add: take_bit_eq_self_iff_drop_bit_eq_0 drop_bit_word_eq_0_iff)

lemma field16: "m < 2 ^ 16 \<Longrightarrow> unat (take_bit 16 (of_nat m :: 32 word)) = m"
  by (simp add: unsigned_take_bit_eq unat_of_nat take_bit_nat_eq_self)

lemma unat_ucast_8_32: "unat (ucast (w :: 8 word) :: 32 word) = unat w"
  by (simp add: unsigned_ucast_eq take_bit_nat_eq_self_iff)
     (use unsigned_less[of w, where 'a=nat] in simp)

lemma field_minus1:
  assumes "1 \<le> unat (c :: 8 word)" "unat c \<le> 2 ^ n"
  shows "(ucast (take_bit n (ucast c - 1 :: 32 word) + 1) :: 8 word) = c"
proof -
  define x where "x = (ucast c :: 32 word)"
  have ux: "unat x = unat c" by (simp add: x_def unat_ucast_8_32)
  have "1 \<le> x" using assms(1) ux by (simp add: word_le_nat_alt)
  then have "unat (x - 1) = unat x - 1" by (simp add: unat_sub)
  then have "unat (x - 1) < 2 ^ n" using assms ux by simp
  then have "take_bit n (x - 1) = x - 1" by (rule take_bit_self_unat)
  then have "take_bit n (x - 1) + 1 = x" by simp
  moreover have "(ucast x :: 8 word) = c"
    unfolding x_def by (rule bit_word_eqI) (auto simp: bit_simps)
  ultimately show ?thesis by (simp add: x_def)
qed

lemma field36:
  assumes "unat (ns :: 64 word) < 2 ^ 36"
  shows "push_bit 18 (ucast (take_bit 18 (ucast (drop_bit 18 ns) :: 32 word)) :: 64 word)
           OR ucast (take_bit 18 (ucast (drop_bit 0 ns) :: 32 word)) = ns"
proof -
  have hi: "\<not> bit ns j" if "36 \<le> j" for j
    using assms that drop_bit_0_bit[of 36 ns j] by (simp add: drop_bit_word_eq_0_iff)
  show ?thesis
  proof (rule bit_word_eqI)
    fix j assume "j < LENGTH(64)"
    show "bit (push_bit 18 (ucast (take_bit 18 (ucast (drop_bit 18 ns) :: 32 word)) :: 64 word)
           OR ucast (take_bit 18 (ucast (drop_bit 0 ns) :: 32 word))) j = bit ns j"
    proof (cases "j < 18")
      case True
      then show ?thesis by (simp add: bit_simps)
    next
      case False
      show ?thesis
      proof (cases "j < 36")
        case True
        then show ?thesis using False by (auto simp: bit_simps)
      next
        case f: False
        then show ?thesis using False hi[of j] by (auto simp: bit_simps)
      qed
    qed
  qed
qed

lemma header_bits:
  "bitsOf (nat 1) (if isLast then 1 else 0 :: 32 word) @ bitsOf (nat 7) (0 :: 32 word) @ bitsOf (nat 24) (34 :: 32 word)
   = concat (map (bitsOf 8) [if isLast then 0x80 else 0, 0, 0, 34 :: 8 word])"
  by (cases isLast) (simp_all add: bitsOf_def upt_rec bit_numeral_word_iff bit_numeral_simps bit_0 bit_Suc)

lemma StreamInfo_parse_bits:
  assumes ranges: "streamInfoRanges S" and md5: "length (md5Hash S) = 16"
    and len: "length b = 34"
    and bits: "concat (map (bitsOf 8) b) =
      bitsOf 16 (of_nat (minBlockSize S) :: 32 word) @ bitsOf 16 (of_nat (maxBlockSize S) :: 32 word) @
      bitsOf 24 (minFrameSize S) @ bitsOf 24 (maxFrameSize S) @ bitsOf 20 (sampleRate S) @
      bitsOf 3 (ucast (numChannels S) - 1 :: 32 word) @ bitsOf 5 (ucast (sampleDepth S) - 1 :: 32 word) @
      bitsOf 18 (ucast (drop_bit 18 (numSamples S)) :: 32 word) @
      bitsOf 18 (ucast (drop_bit 0 (numSamples S)) :: 32 word) @
      concat (map (bitsOf 8) (md5Hash S)) @ []"
  shows "StreamInfo_parse ord longBits b
           = Inr (S\<lparr>numSamples := parsedNumSamples ord longBits (numSamples S)\<rparr>)"
proof -
  define r0 where "r0 = newByteArrayFlacInput b"
  have i0: "rinv r0" by (simp add: r0_def rinv_new)
  have b0: "rbits r0 = concat (map (bitsOf 8) b)" by (simp add: r0_def rbits_new)
  from readUint_append[OF i0 _ b0[unfolded bits]] obtain r1 where
    r1: "readUint 16 r0 = Inr (take_bit 16 (of_nat (minBlockSize S)), r1)" "rinv r1" and b1: "rbits r1 =
      bitsOf 16 (of_nat (maxBlockSize S) :: 32 word) @
      bitsOf 24 (minFrameSize S) @ bitsOf 24 (maxFrameSize S) @ bitsOf 20 (sampleRate S) @
      bitsOf 3 (ucast (numChannels S) - 1 :: 32 word) @ bitsOf 5 (ucast (sampleDepth S) - 1 :: 32 word) @
      bitsOf 18 (ucast (drop_bit 18 (numSamples S)) :: 32 word) @
      bitsOf 18 (ucast (drop_bit 0 (numSamples S)) :: 32 word) @
      concat (map (bitsOf 8) (md5Hash S)) @ []" by auto
  from readUint_append[OF r1(2) _ b1] obtain r2 where
    r2: "readUint 16 r1 = Inr (take_bit 16 (of_nat (maxBlockSize S)), r2)" "rinv r2" and b2: "rbits r2 =
      bitsOf 24 (minFrameSize S) @ bitsOf 24 (maxFrameSize S) @ bitsOf 20 (sampleRate S) @
      bitsOf 3 (ucast (numChannels S) - 1 :: 32 word) @ bitsOf 5 (ucast (sampleDepth S) - 1 :: 32 word) @
      bitsOf 18 (ucast (drop_bit 18 (numSamples S)) :: 32 word) @
      bitsOf 18 (ucast (drop_bit 0 (numSamples S)) :: 32 word) @
      concat (map (bitsOf 8) (md5Hash S)) @ []" by auto
  from readUint_append[OF r2(2) _ b2] obtain r3 where
    r3: "readUint 24 r2 = Inr (take_bit 24 (minFrameSize S), r3)" "rinv r3" and b3: "rbits r3 =
      bitsOf 24 (maxFrameSize S) @ bitsOf 20 (sampleRate S) @
      bitsOf 3 (ucast (numChannels S) - 1 :: 32 word) @ bitsOf 5 (ucast (sampleDepth S) - 1 :: 32 word) @
      bitsOf 18 (ucast (drop_bit 18 (numSamples S)) :: 32 word) @
      bitsOf 18 (ucast (drop_bit 0 (numSamples S)) :: 32 word) @
      concat (map (bitsOf 8) (md5Hash S)) @ []" by auto
  from readUint_append[OF r3(2) _ b3] obtain r4 where
    r4: "readUint 24 r3 = Inr (take_bit 24 (maxFrameSize S), r4)" "rinv r4" and b4: "rbits r4 =
      bitsOf 20 (sampleRate S) @
      bitsOf 3 (ucast (numChannels S) - 1 :: 32 word) @ bitsOf 5 (ucast (sampleDepth S) - 1 :: 32 word) @
      bitsOf 18 (ucast (drop_bit 18 (numSamples S)) :: 32 word) @
      bitsOf 18 (ucast (drop_bit 0 (numSamples S)) :: 32 word) @
      concat (map (bitsOf 8) (md5Hash S)) @ []" by auto
  from readUint_append[OF r4(2) _ b4] obtain r5 where
    r5: "readUint 20 r4 = Inr (take_bit 20 (sampleRate S), r5)" "rinv r5" and b5: "rbits r5 =
      bitsOf 3 (ucast (numChannels S) - 1 :: 32 word) @ bitsOf 5 (ucast (sampleDepth S) - 1 :: 32 word) @
      bitsOf 18 (ucast (drop_bit 18 (numSamples S)) :: 32 word) @
      bitsOf 18 (ucast (drop_bit 0 (numSamples S)) :: 32 word) @
      concat (map (bitsOf 8) (md5Hash S)) @ []" by auto
  from readUint_append[OF r5(2) _ b5] obtain r6 where
    r6: "readUint 3 r5 = Inr (take_bit 3 (ucast (numChannels S) - 1), r6)" "rinv r6" and b6: "rbits r6 =
      bitsOf 5 (ucast (sampleDepth S) - 1 :: 32 word) @
      bitsOf 18 (ucast (drop_bit 18 (numSamples S)) :: 32 word) @
      bitsOf 18 (ucast (drop_bit 0 (numSamples S)) :: 32 word) @
      concat (map (bitsOf 8) (md5Hash S)) @ []" by auto
  from readUint_append[OF r6(2) _ b6] obtain r7 where
    r7: "readUint 5 r6 = Inr (take_bit 5 (ucast (sampleDepth S) - 1), r7)" "rinv r7" and b7: "rbits r7 =
      bitsOf 18 (ucast (drop_bit 18 (numSamples S)) :: 32 word) @
      bitsOf 18 (ucast (drop_bit 0 (numSamples S)) :: 32 word) @
      concat (map (bitsOf 8) (md5Hash S)) @ []" by auto
  from readUint_append[OF r7(2) _ b7] obtain r8 where
    r8: "readUint 18 r7 = Inr (take_bit 18 (ucast (drop_bit 18 (numSamples S))), r8)" "rinv r8" and b8: "rbits r8 =
      bitsOf 18 (ucast (drop_bit 0 (numSamples S)) :: 32 word) @
      concat (map (bitsOf 8) (md5Hash S)) @ []" by auto
  from readUint_append[OF r8(2) _ b8] obtain r9 where
    r9: "readUint 18 r8 = Inr (take_bit 18 (ucast (drop_bit 0 (numSamples S))), r9)" "rinv r9" and b9: "rbits r9 =
      concat (map (bitsOf 8) (md5Hash S)) @ []" by auto
  from readFully_append[OF r9(2) b9] md5 obtain r10 where
    r10: "readFully 16 r9 = Inr (md5Hash S, r10)" by auto
  have R: "16 \<le> minBlockSize S" "minBlockSize S \<le> maxBlockSize S"
     "unat (minFrameSize S) < 2 ^ 24" "unat (maxFrameSize S) < 2 ^ 24"
     "minFrameSize S = 0 \<or> maxFrameSize S = 0 \<or> unat (minFrameSize S) \<le> unat (maxFrameSize S)"
     "1 \<le> unat (sampleRate S)" "unat (sampleRate S) \<le> 655350"
     "1 \<le> unat (numChannels S)" "unat (numChannels S) \<le> 8"
     "4 \<le> unat (sampleDepth S)" "unat (sampleDepth S) \<le> 32"
     "unat (numSamples S) < 2 ^ 36"
    using ranges by (simp_all add: streamInfoRanges_def)
  have f3: "take_bit 24 (minFrameSize S) = minFrameSize S" using R(3) by (rule take_bit_self_unat)
  have f4: "take_bit 24 (maxFrameSize S) = maxFrameSize S" using R(4) by (rule take_bit_self_unat)
  have f5: "take_bit 20 (sampleRate S) = sampleRate S" using R(7) by (intro take_bit_self_unat) simp
  have f6: "(ucast (take_bit 3 (ucast (numChannels S) - 1 :: 32 word) + 1) :: 8 word) = numChannels S"
    using R(8,9) by (intro field_minus1) simp_all
  have f7: "(ucast (take_bit 5 (ucast (sampleDepth S) - 1 :: 32 word) + 1) :: 8 word) = sampleDepth S"
    using R(10,11) by (intro field_minus1) simp_all
  have B: "minBlockSize S < 2 ^ 16" "maxBlockSize S < 2 ^ 16"
    using ranges by (simp_all add: streamInfoRanges_def)
  have f1: "unat (take_bit 16 (of_nat (minBlockSize S) :: 32 word)) = minBlockSize S"
    using B(1) by (rule field16)
  have f2: "unat (take_bit 16 (of_nat (maxBlockSize S) :: 32 word)) = maxBlockSize S"
    using B(2) by (rule field16)
  have c1: "\<not> minBlockSize S < 16" using R(1) by simp
  have c2: "\<not> maxBlockSize S < minBlockSize S" using R(2) by simp
  have c3: "\<not> (minFrameSize S \<noteq> 0 \<and> maxFrameSize S \<noteq> 0 \<and> maxFrameSize S < minFrameSize S)"
    using R(5) by (auto simp: word_less_nat_alt)
  have c4: "sampleRate S \<noteq> 0" using R(6) by auto
  have c5: "\<not> sampleRate S > 655350" using R(7) by (simp add: word_less_nat_alt)
  have tail: "StreamInfo_parse_tail ord longBits (minBlockSize S) (maxBlockSize S)
                (minFrameSize S) (maxFrameSize S) r4
              = Inr (S\<lparr>numSamples := parsedNumSamples ord longBits (numSamples S)\<rparr>)"
    unfolding StreamInfo_parse_tail_def parsedNumSamples_def
    using r5(1) r6(1) r7(1) r8(1) r9(1) r10 c4 c5 f6 f7
    by (cases ord) (simp_all add: f5 Let_def)
  show ?thesis
    unfolding StreamInfo_parse_def
    using len r1(1) r2(1) r3(1) r4(1) c1 c2 c3 tail
    by (simp add: r0_def[symmetric] Let_def f1 f2 f3 f4)
qed

lemma parsedNumSamples_LeftFirst:
  assumes "unat (ns :: 64 word) < 2 ^ 36" "36 \<le> longBits"
  shows "parsedNumSamples LeftFirst longBits ns = ns"
proof -
  define hi where "hi = (ucast (take_bit 18 (ucast (drop_bit 18 ns) :: 32 word)) :: 64 word)"
  have "take_bit longBits (push_bit 18 hi) = push_bit 18 hi"
  proof (rule bit_word_eqI)
    fix j assume "j < LENGTH(64)"
    have "bit (push_bit 18 hi) j \<Longrightarrow> j < longBits"
      using assms(2) by (auto simp: hi_def bit_simps)
    then show "bit (take_bit longBits (push_bit 18 hi)) j = bit (push_bit 18 hi) j"
      by (auto simp: bit_take_bit_iff)
  qed
  then show ?thesis
    using field36[OF assms(1)] by (simp add: parsedNumSamples_def hi_def)
qed

lemma ranges_imp_widths: "streamInfoRanges S \<Longrightarrow> streamInfoWidths S"
  by (simp add: streamInfoRanges_def streamInfoWidths_def)

lemma drop_bit_16_nat: "drop_bit 16 (n :: nat) \<noteq> 0 \<longleftrightarrow> \<not> n < 2 ^ 16"
  by (simp add: drop_bit_eq_div div_greater_zero_iff not_less)

lemma StreamInfo_checkValues_Inr_iff:
  "StreamInfo_checkValues S = Inr () \<longleftrightarrow> streamInfoWidths S"
  unfolding StreamInfo_checkValues_def streamInfoWidths_def drop_bit_16_nat
  by (auto simp: drop_bit_word_eq_0_iff word_less_nat_alt word_le_nat_alt unat_eq_0 not_less not_le
      Suc_le_eq unat_gt_0)

lemma StreamInfo_checkValues_Inl:
  "StreamInfo_checkValues S \<noteq> Inr () \<Longrightarrow> \<exists>msg. StreamInfo_checkValues S = Inl (RuntimeError msg)"
  by (simp add: StreamInfo_checkValues_def split: if_splits)

section \<open>Lookups in the CRC tables; operations of the writer that cannot fail\<close>

lemma arrayGet_CRC8_TABLE [code_unfold]:
  "arrayGet CRC8_TABLE i =
     (if 0 \<le> i \<and> i < 256 then Inr (ucast ((crc8TableStep ^^ 8) (word_of_int i))) else Inl OutOfBounds)"
proof (cases "0 \<le> i \<and> i < 256")
  case True
  then have "nat i < 256" by linarith
  then have "CRC8_TABLE ! nat i = ucast ((crc8TableStep ^^ 8) (of_nat (nat i)))"
    by (simp add: CRC8_TABLE_def)
  then show ?thesis using True by (simp add: arrayGet_def)
next
  case False
  then show ?thesis by (auto simp: arrayGet_def)
qed

lemma arrayGet_CRC16_TABLE [code_unfold]:
  "arrayGet CRC16_TABLE i =
     (if 0 \<le> i \<and> i < 256 then Inr (ucast ((crc16TableStep ^^ 8) (push_bit 8 (word_of_int i))))
      else Inl OutOfBounds)"
proof (cases "0 \<le> i \<and> i < 256")
  case True
  then have "nat i < 256" by linarith
  then have "CRC16_TABLE ! nat i = ucast ((crc16TableStep ^^ 8) (push_bit 8 (of_nat (nat i))))"
    by (simp add: CRC16_TABLE_def)
  then show ?thesis using True by (simp add: arrayGet_def)
next
  case False
  then show ?thesis by (auto simp: arrayGet_def)
qed


lemma resetCrcsW_total: "\<exists>s'. resetCrcsW s = Inr s' \<and> wBitBufferLen s' \<le> 64"
proof -
  obtain s1 where "flush s = Inr s1" "wBitBufferLen s1 = wBitBufferLen s mod 8"
    using flush_total by blast
  moreover have "wBitBufferLen s mod 8 \<le> 64"
    by (rule le_trans[OF mod_le_divisor]) simp_all
  ultimately show ?thesis by (simp add: resetCrcsW_def)
qed

lemma writeUtf8Integer_absent:
  "writeUtf8Integer (- 1) s = Inl (InvalidArgument ''Given value does not fit into uint36 type'')"
  by (simp add: writeUtf8Integer_def)



lemma writeIntsE_Inr: "writeInts nvs s = Inr s' \<Longrightarrow> writeIntsE nvs s = Inr s'"
proof (induction nvs arbitrary: s)
  case Nil
  then show ?case by simp
next
  case (Cons nv nvs)
  then show ?case by (cases "writeInt (fst nv) (snd nv) s") simp_all
qed

section \<open>The tables of the Rice decoder and its two paths\<close>

lemma length_fold_update [simp]:
  "length (fold (\<lambda>j t. t[f j := v]) js table) = length table"
  by (induction js arbitrary: table) simp_all

lemma nth_fold_update:
  "idx < length table \<Longrightarrow>
   fold (\<lambda>j t. t[f j := v]) js table ! idx = (if idx \<in> f ` set js then v else table ! idx)"
proof (induction js arbitrary: table)
  case Nil
  then show ?case by simp
next
  case (Cons j js)
  then show ?case by (auto simp: nth_list_update)
qed

lemma map_fold_update:
  "map g (fold (\<lambda>j t. t[f j := v]) js table) = fold (\<lambda>j t. t[f j := g v]) js (map g table)"
  by (induction js arbitrary: table) (simp_all add: map_update)

lemma length_riceFillSymbol [simp]: "length (riceFillSymbol param i v table) = length table"
  by (simp add: riceFillSymbol_def Let_def)

lemma map_riceFillSymbol:
  "map g (riceFillSymbol param i v table) = riceFillSymbol param i (g v) (map g table)"
  by (simp add: riceFillSymbol_def Let_def map_fold_update)

lemma length_riceFillFrom [simp]: "length (riceFillFrom param val i table) = length table"
proof (induction param val i table rule: riceFillFrom.induct)
  case (1 param val i table)
  then show ?case by (subst riceFillFrom.simps) simp
qed

lemma map_riceFillFrom:
  "map g (riceFillFrom param val i table) = riceFillFrom param (\<lambda>i. g (val i)) i (map g table)"
proof (induction param val i table rule: riceFillFrom.induct)
  case (1 param val i table)
  show ?case
  proof (cases "riceNumBits param i > RICE_DECODING_TABLE_BITS")
    case True
    then show ?thesis by (simp add: riceFillFrom.simps)
  next
    case False
    then show ?thesis
      using 1 by (subst riceFillFrom.simps, subst (2) riceFillFrom.simps) (simp add: map_riceFillSymbol)
  qed
qed

lemma ricePairInv_fillSymbol:
  assumes "ricePairInv param table" "riceNumBits param i \<le> RICE_DECODING_TABLE_BITS"
  shows "ricePairInv param (riceFillSymbol param i (ricePair param i) table)"
  unfolding ricePairInv_def
proof (intro allI impI)
  fix idx
  assume idx: "idx < length (riceFillSymbol param i (ricePair param i) table)"
    and nz: "fst (riceFillSymbol param i (ricePair param i) table ! idx) \<noteq> 0"
  define shift where "shift = RICE_DECODING_TABLE_BITS - riceNumBits param i"
  have lt: "idx < length table" using idx by simp
  have nth: "riceFillSymbol param i (ricePair param i) table ! idx =
      (if idx \<in> (\<lambda>j. push_bit shift (riceBits param i) OR j) ` set [0..<push_bit shift 1]
       then ricePair param i else table ! idx)"
    unfolding riceFillSymbol_def Let_def shift_def
    by (rule nth_fold_update[OF lt])
  show "\<exists>i'. riceCovers param i' idx \<and>
             riceFillSymbol param i (ricePair param i) table ! idx = ricePair param i'"
  proof (cases "idx \<in> (\<lambda>j. push_bit shift (riceBits param i) OR j) ` set [0..<push_bit shift 1]")
    case True
    then have "riceCovers param i idx"
      using assms(2) by (auto simp: riceCovers_def shift_def)
    then show ?thesis using True nth by auto
  next
    case False
    then have "riceFillSymbol param i (ricePair param i) table ! idx = table ! idx"
      using nth by simp
    then show ?thesis using assms(1) lt nz by (auto simp: ricePairInv_def)
  qed
qed

lemma ricePairInv_fillFrom:
  "ricePairInv param table \<Longrightarrow> ricePairInv param (riceFillFrom param (ricePair param) i table)"
proof (induction param "ricePair param" i table rule: riceFillFrom.induct)
  case (1 param i table)
  show ?case
  proof (cases "riceNumBits param i > RICE_DECODING_TABLE_BITS")
    case True
    then show ?thesis using "1.prems" by (simp add: riceFillFrom.simps)
  next
    case False
    then have "ricePairInv param (riceFillSymbol param i (ricePair param i) table)"
      using "1.prems" by (intro ricePairInv_fillSymbol) simp_all
    then show ?thesis using "1.hyps"[OF False] False by (subst riceFillFrom.simps) simp
  qed
qed

lemma riceTables_entry:
  assumes "idx < 8192" "riceConsumedTable (\<lambda>k. 0) param ! idx \<noteq> 0"
  shows "\<exists>i. riceCovers param i idx \<and>
             riceConsumedTable (\<lambda>k. 0) param ! idx = of_nat (riceNumBits param i) \<and>
             riceValueTable (\<lambda>k. 0) param ! idx = riceTableValue i"
proof -
  define T where "T = riceFillFrom param (ricePair param) 0
                        (replicate (push_bit RICE_DECODING_TABLE_BITS 1) (0 :: 8 word, 0 :: 32 word))"
  have lT: "length T = 8192" by (simp add: T_def RICE_DECODING_TABLE_BITS_def)
  have "ricePairInv param (replicate (push_bit RICE_DECODING_TABLE_BITS 1) (0 :: 8 word, 0 :: 32 word))"
    by (simp add: ricePairInv_def)
  then have inv: "ricePairInv param T" unfolding T_def by (rule ricePairInv_fillFrom)
  have c: "riceConsumedTable (\<lambda>k. 0) param = map fst T"
    unfolding T_def map_riceFillFrom by (simp add: riceConsumedTable_def ricePair_def map_replicate_const)
  have v: "riceValueTable (\<lambda>k. 0) param = map snd T"
    unfolding T_def map_riceFillFrom by (simp add: riceValueTable_def ricePair_def map_replicate_const)
  have "fst (T ! idx) \<noteq> 0" using assms lT by (simp add: c)
  then obtain i where "riceCovers param i idx" "T ! idx = ricePair param i"
    using inv assms(1) lT by (auto simp: ricePairInv_def)
  then show ?thesis using assms(1) lT by (auto simp: c v ricePair_def)
qed

lemma length_riceTables [simp]:
  "length (riceConsumedTable freshC param) = 8192" "length (riceValueTable freshV param) = 8192"
  by (simp_all add: riceConsumedTable_def riceValueTable_def RICE_DECODING_TABLE_BITS_def)

lemma readUint_buffered:
  assumes "n \<le> bitBufferLen s" "bitBufferLen s \<le> 64" "n < 32"
  shows "readUint n s =
           Inr (take_bit n (ucast (drop_bit (bitBufferLen s - n) (bitBuffer s))),
                s\<lparr>bitBufferLen := bitBufferLen s - n\<rparr>)"
proof -
  have f: "readUint_fill n s = Inr s" using assms(1) by (subst readUint_fill.simps) simp
  have r: "\<And>x :: 32 word. x AND (push_bit n 1 - 1) = take_bit n x"
    by (simp only: mask_32 take_bit_eq_mask)
  have d: "\<And>y :: 32 word. drop_bit n (take_bit n y) = 0" by (simp add: drop_bit_take_bit)
  show ?thesis
    unfolding readUint_def f Let_def r using assms by (simp add: d)
qed

lemma readUint_1_buffered:
  assumes "0 < bitBufferLen s" "bitBufferLen s \<le> 64"
  shows "readUint 1 s =
           Inr (of_bool (bit (bitBuffer s) (bitBufferLen s - 1)), s\<lparr>bitBufferLen := bitBufferLen s - 1\<rparr>)"
proof -
  have "bit (ucast (drop_bit (bitBufferLen s - 1) (bitBuffer s)) :: 32 word) 0
          = bit (bitBuffer s) (bitBufferLen s - 1)"
    by (simp add: bit_simps del: bit_0)
  then have o: "odd (ucast (drop_bit (bitBufferLen s - 1) (bitBuffer s)) :: 32 word)
          = bit (bitBuffer s) (bitBufferLen s - 1)"
    by (simp add: bit_0)
  have "take_bit 1 (ucast (drop_bit (bitBufferLen s - 1) (bitBuffer s)) :: 32 word)
          = of_bool (bit (bitBuffer s) (bitBufferLen s - 1))"
    using o by (simp add: take_bit_Suc_0 mod_2_eq_odd)
  then show ?thesis using readUint_buffered[of 1 s] assms by simp
qed

lemma riceUnary_buffered:
  assumes "q < bitBufferLen s" "bitBufferLen s \<le> 64"
    "\<forall>k<q. \<not> bit (bitBuffer s) (bitBufferLen s - 1 - k)"
    "bit (bitBuffer s) (bitBufferLen s - 1 - q)"
    "unat val + q \<le> unat limit"
  shows "riceUnary limit val s = Inr (val + of_nat q, s\<lparr>bitBufferLen := bitBufferLen s - q - 1\<rparr>)"
  using assms
proof (induction q arbitrary: val s)
  case 0
  then have rd: "readUint 1 s = Inr (1, s\<lparr>bitBufferLen := bitBufferLen s - 1\<rparr>)"
    using readUint_1_buffered[of s] by simp
  show ?case
    unfolding riceUnary.simps[of limit val s] rd by simp
next
  case (Suc q)
  define s1 where "s1 = s\<lparr>bitBufferLen := bitBufferLen s - 1\<rparr>"
  have b0: "\<not> bit (bitBuffer s) (bitBufferLen s - 1)" using Suc.prems(3) by force
  have rd: "readUint 1 s = Inr (0, s1)"
    using readUint_1_buffered[of s] Suc.prems(1,2) b0 by (simp add: s1_def)
  have lt: "unat val < unat limit" using Suc.prems(5) by simp
  then have nle: "\<not> limit \<le> val" by (simp add: word_le_nat_alt)
  have "unat limit < 2 ^ 64" using unsigned_less[of limit, where 'a=nat] by simp
  then have "unat val + unat (1 :: 64 word) < 2 ^ LENGTH(64)" using lt by simp
  then have u1: "unat (val + 1) = unat val + 1" using unat_add_lem[of val 1] by simp
  have bits: "\<forall>k<q. \<not> bit (bitBuffer s1) (bitBufferLen s1 - 1 - k)"
  proof (intro allI impI)
    fix k assume "k < q"
    then have "\<not> bit (bitBuffer s) (bitBufferLen s - 1 - Suc k)" using Suc.prems(3) by simp
    then show "\<not> bit (bitBuffer s1) (bitBufferLen s1 - 1 - k)" by (simp add: s1_def)
  qed
  have "riceUnary limit (val + 1) s1
          = Inr (val + 1 + of_nat q, s1\<lparr>bitBufferLen := bitBufferLen s1 - q - 1\<rparr>)"
  proof (rule Suc.IH)
    show "q < bitBufferLen s1" using Suc.prems(1) by (simp add: s1_def)
    show "bitBufferLen s1 \<le> 64" using Suc.prems(2) by (simp add: s1_def)
    show "\<forall>k<q. \<not> bit (bitBuffer s1) (bitBufferLen s1 - 1 - k)" by (rule bits)
    show "bit (bitBuffer s1) (bitBufferLen s1 - 1 - q)" using Suc.prems(4) by (simp add: s1_def)
    show "unat (val + 1) + q \<le> unat limit" using Suc.prems(5) u1 by simp
  qed
  then show ?case
    unfolding riceUnary.simps[of limit val s] rd using nle by (simp add: s1_def)
qed

lemma not_bit_nat_ge: "i < 2 ^ k \<Longrightarrow> k \<le> m \<Longrightarrow> \<not> bit (i::nat) m"
proof -
  assume a: "i < 2 ^ k" "k \<le> m"
  have "(2::nat) ^ k \<le> 2 ^ m" using a(2) by simp
  then have "i < 2 ^ m" using a(1) by linarith
  then show ?thesis by (simp add: bit_iff_odd)
qed

lemma neg_and_1: "- (of_nat i AND 1 :: 'a::len word) = (if odd i then - 1 else 0)"
  by (simp add: and_one_eq mod_2_eq_odd)

lemma riceTableValue_scast:
  assumes "i < 2 ^ 31"
  shows "(scast (riceTableValue i) :: 64 word) = drop_bit 1 (of_nat i) XOR - (of_nat i AND 1)"
proof (cases "odd i")
  case False
  show ?thesis
    unfolding riceTableValue_def neg_and_1 using False not_bit_nat_ge[OF assms]
    by (intro bit_word_eqI) (auto simp: bit_simps min_def)
next
  case True
  show ?thesis
    unfolding riceTableValue_def neg_and_1 using True not_bit_nat_ge[OF assms]
    by (intro bit_word_eqI) (auto simp: bit_simps min_def)
qed

lemma riceCovers_bits:
  assumes "riceCovers param i idx"
  shows "bit idx (RICE_DECODING_TABLE_BITS - riceNumBits param i + m)
           \<longleftrightarrow> m = param \<or> (m < param \<and> bit i m)"
proof -
  define shift where "shift = RICE_DECODING_TABLE_BITS - riceNumBits param i"
  from assms obtain j where j: "j < 2 ^ shift" "idx = push_bit shift (riceBits param i) OR j"
    by (auto simp: riceCovers_def shift_def)
  have nj: "\<not> bit j (shift + m)" using not_bit_nat_ge[OF j(1)] by simp
  have m: "push_bit param (1::nat) - 1 = mask param" by (simp add: mask_eq_exp_minus_1)
  have "bit (riceBits param i) m \<longleftrightarrow> m = param \<or> (m < param \<and> bit i m)"
    unfolding riceBits_def m by (auto simp: bit_simps)
  then show ?thesis
    unfolding shift_def[symmetric] j(2) using nj by (simp add: bit_simps)
qed

lemma extractedBits_index:
  fixes bb :: "64 word" and len :: nat
  defines "e \<equiv> (ucast (drop_bit (len - RICE_DECODING_TABLE_BITS) bb) :: 32 word) AND RICE_DECODING_TABLE_MASK"
  shows "sint e = int (unat e)" "unat e < 8192"
    "\<And>k. bit (unat e) k \<longleftrightarrow> k < 13 \<and> bit bb (len - 13 + k)"
proof -
  have e: "e = take_bit 13 (ucast (drop_bit (len - 13) bb))"
    unfolding e_def RICE_DECODING_TABLE_MASK_def RICE_DECODING_TABLE_BITS_def
    by (simp only: mask_32 take_bit_eq_mask)
  have "unat e < 2 ^ 13" unfolding e unsigned_take_bit_eq by (rule take_bit_nat_less_exp)
  then show u: "unat e < 8192" by simp
  have ue: "uint e = int (unat e)" by (rule uint_nat)
  then have "uint e < 2147483648" using u by linarith
  then have hi: "uint e < 2 ^ 31" by simp
  have lo: "- (2 ^ 31) \<le> uint e" by (rule order_trans[of _ 0]) simp_all
  have "signed_take_bit 31 (uint e) = uint e"
    by (rule signed_take_bit_int_eq_self[OF lo hi])
  then have "sint e = uint e" unfolding sint_uint by simp
  then show "sint e = int (unat e)" by (rule trans) (rule ue)
  show "\<And>k. bit (unat e) k \<longleftrightarrow> k < 13 \<and> bit bb (len - 13 + k)"
    unfolding e bit_unsigned_iff by (auto simp: bit_simps dest: bit_imp_le_length)
qed

lemma signed_drop_bit_52_scast:
  "signed_drop_bit 52 (scast (w :: 32 word) :: 64 word) = (if bit w 31 then - 1 else 0)"
  by (rule bit_word_eqI) (auto simp: bit_signed_drop_bit_iff bit_signed_iff min_def)

lemma riceSlowSymbol_covered:
  assumes len: "bitBufferLen s \<le> 64" "RICE_DECODING_TABLE_BITS \<le> bitBufferLen s"
    and cov: "riceCovers param i
               (unat ((ucast (drop_bit (bitBufferLen s - RICE_DECODING_TABLE_BITS) (bitBuffer s)) :: 32 word)
                        AND RICE_DECODING_TABLE_MASK))"
  shows "riceSlowSymbol param s =
           Inr (scast (riceTableValue i), s\<lparr>bitBufferLen := bitBufferLen s - riceNumBits param i\<rparr>)"
proof -
  define bb where "bb = bitBuffer s"
  define n where "n = bitBufferLen s"
  define idx where "idx = unat ((ucast (drop_bit (n - RICE_DECODING_TABLE_BITS) bb) :: 32 word)
                        AND RICE_DECODING_TABLE_MASK)"
  define q where "q = drop_bit param i"
  define nb where "nb = riceNumBits param i"
  have nb: "nb = q + 1 + param" by (simp add: nb_def q_def riceNumBits_def)
  have cov': "riceCovers param i idx" using cov by (simp add: idx_def n_def bb_def)
  have nb13: "nb \<le> 13" using cov' by (simp add: riceCovers_def nb_def RICE_DECODING_TABLE_BITS_def)
  have n13: "13 \<le> n" "n \<le> 64" using len by (simp_all add: n_def RICE_DECODING_TABLE_BITS_def)
  have bidx: "\<And>k. bit idx k \<longleftrightarrow> k < 13 \<and> bit bb (n - 13 + k)"
    unfolding idx_def by (rule extractedBits_index(3))
  have cb: "\<And>m. bit idx (13 - nb + m) \<longleftrightarrow> m = param \<or> (m < param \<and> bit i m)"
    using riceCovers_bits[OF cov'] by (simp add: nb_def RICE_DECODING_TABLE_BITS_def)
  have bbm: "bit bb (n - nb + m) \<longleftrightarrow> m = param \<or> (m < param \<and> bit i m)" if "m < nb" for m
  proof -
    have "13 - nb + m < 13" using that nb13 by linarith
    then have "bit idx (13 - nb + m) \<longleftrightarrow> bit bb (n - 13 + (13 - nb + m))"
      by (simp only: bidx simp_thms)
    moreover have "n - 13 + (13 - nb + m) = n - nb + m" using nb13 n13 by simp
    ultimately show ?thesis using cb[of m] by simp
  qed
  text \<open>the unary part\<close>
  have z: "\<forall>k<q. \<not> bit (bitBuffer s) (bitBufferLen s - 1 - k)"
  proof (intro allI impI)
    fix k assume k: "k < q"
    have "n - 1 - k = n - nb + (nb - 1 - k)" using nb nb13 n13 k by simp
    moreover have "\<not> bit bb (n - nb + (nb - 1 - k))"
      using bbm[of "nb - 1 - k"] nb k by auto
    ultimately show "\<not> bit (bitBuffer s) (bitBufferLen s - 1 - k)" by (simp add: bb_def n_def)
  qed
  have o: "bit (bitBuffer s) (bitBufferLen s - 1 - q)"
  proof -
    have "n - 1 - q = n - nb + param" using nb nb13 n13 by simp
    moreover have "bit bb (n - nb + param)" using bbm[of param] nb by simp
    ultimately show ?thesis by (simp add: bb_def n_def)
  qed
  have lim: "unat (0 :: 64 word) + q \<le> unat (push_bit (53 - param) 1 :: 64 word)"
  proof -
    have "param \<le> 12" "q \<le> 12" using nb nb13 by simp_all
    then have "(2::nat) ^ 4 \<le> 2 ^ (53 - param)" by (intro power_increasing) simp_all
    moreover have "unat (push_bit (53 - param) 1 :: 64 word) = 2 ^ (53 - param)"
      unfolding unsigned_push_bit_eq by (simp add: take_bit_nat_eq_self)
    ultimately show ?thesis using \<open>q \<le> 12\<close> by simp
  qed
  define s1 where "s1 = s\<lparr>bitBufferLen := bitBufferLen s - q - 1\<rparr>"
  have un: "riceUnary (push_bit (53 - param) 1) 0 s = Inr (of_nat q, s1)"
    using riceUnary_buffered[OF _ len(1) z o lim] nb nb13 n13 by (simp add: s1_def n_def)
  text \<open>the remainder\<close>
  define r :: "32 word" where "r = take_bit param (ucast (drop_bit (bitBufferLen s1 - param) (bitBuffer s1)))"
  define s2 where "s2 = s\<lparr>bitBufferLen := bitBufferLen s - nb\<rparr>"
  have rd: "readUint param s1 = Inr (r, s2)"
  proof -
    have "readUint param s1 = Inr (r, s1\<lparr>bitBufferLen := bitBufferLen s1 - param\<rparr>)"
      unfolding r_def using nb nb13 n13 by (intro readUint_buffered) (simp_all add: s1_def n_def)
    moreover have "s1\<lparr>bitBufferLen := bitBufferLen s1 - param\<rparr> = s2"
      using nb by (simp add: s1_def s2_def)
    ultimately show ?thesis by simp
  qed
  have l1: "bitBufferLen s1 - param = n - nb" using nb by (simp add: s1_def n_def)
  have rbits: "bit r m \<longleftrightarrow> m < param \<and> bit i m" for m
  proof (cases "m < param")
    case False
    then show ?thesis by (simp add: r_def bit_simps)
  next
    case True
    then have "m < nb" "m < 32" using nb nb13 by simp_all
    then have "bit r m \<longleftrightarrow> bit bb (n - nb + m)"
      unfolding r_def l1 using True by (simp add: bit_simps s1_def bb_def)
    then show ?thesis using bbm[OF \<open>m < nb\<close>] True by simp
  qed
  have val: "push_bit param (of_nat q :: 64 word) OR ucast r = of_nat i"
  proof (rule bit_word_eqI)
    fix m assume "m < LENGTH(64)"
    then have m: "m < 64" by simp
    have a: "bit (push_bit param (of_nat q :: 64 word)) m \<longleftrightarrow> param \<le> m \<and> bit i m"
      using m by (auto simp: bit_push_bit_iff bit_of_nat_iff q_def bit_drop_bit_eq)
    have b: "bit (ucast r :: 64 word) m \<longleftrightarrow> m < param \<and> bit i m"
      using m rbits[of m] by (auto simp: bit_unsigned_iff dest: bit_imp_le_length)
    have c: "bit (of_nat i :: 64 word) m \<longleftrightarrow> bit i m"
      using m by (simp add: bit_of_nat_iff)
    show "bit (push_bit param (of_nat q :: 64 word) OR ucast r) m = bit (of_nat i :: 64 word) m"
      unfolding bit_or_iff a b c by auto
  qed
  have ismall: "i < 2 ^ 31"
  proof -
    have "i div 2 ^ param < 13" using nb nb13 by (simp add: q_def drop_bit_eq_div)
    then have "i < 13 * 2 ^ param" by (simp add: div_less_iff_less_mult mult.commute)
    moreover have "(2::nat) ^ param \<le> 2 ^ 12" using nb nb13 by (intro power_increasing) simp_all
    ultimately show ?thesis by simp
  qed
  have a1: "drop_bit 53 (of_nat i :: 64 word) = 0"
    using not_bit_nat_ge[OF ismall] by (intro bit_word_eqI) (simp add: bit_drop_bit_eq bit_of_nat_iff)
  have zz: "drop_bit 1 (of_nat i :: 64 word) XOR - (of_nat i AND 1) = scast (riceTableValue i)"
    by (rule riceTableValue_scast[OF ismall, symmetric])
  have a2: "signed_drop_bit 52 (scast (riceTableValue i) :: 64 word) = 0
            \<or> signed_drop_bit 52 (scast (riceTableValue i) :: 64 word) = - 1"
    unfolding signed_drop_bit_52_scast by simp
  show ?thesis
    unfolding riceSlowSymbol_def un sum.case prod.case rd Let_def val a1 zz
    using a2 by (simp only: simp_thms if_True if_False s2_def nb_def)
qed


text \<open>
  With tables whose arrays were allocated full of zeros, as the arrays of the Java original
  are, an entry of the fast path is what the slow path decodes from the same bits, and the two
  leave the reader in the same state.
\<close>

lemma riceFastSymbol_slow:
  assumes "bitBufferLen s \<le> 64" "RICE_DECODING_TABLE_BITS \<le> bitBufferLen s"
    and "riceFastSymbol (riceConsumedTable (\<lambda>k. 0) param) (riceValueTable (\<lambda>k. 0) param) s
           = Inr (Some (v, s'))"
  shows "riceSlowSymbol param s = Inr (v, s')"
proof -
  define e where "e = (ucast (drop_bit (bitBufferLen s - RICE_DECODING_TABLE_BITS) (bitBuffer s)) :: 32 word)
                        AND RICE_DECODING_TABLE_MASK"
  have si: "sint e = int (unat e)" and u: "unat e < 8192"
    unfolding e_def by (rule extractedBits_index)+
  have g: "0 \<le> int (unat e)" "int (unat e) < int 8192" using u by linarith+
  have g1: "arrayGet (riceConsumedTable (\<lambda>k. 0) param) (sint e) = Inr (riceConsumedTable (\<lambda>k. 0) param ! unat e)"
    and g2: "arrayGet (riceValueTable (\<lambda>k. 0) param) (sint e) = Inr (riceValueTable (\<lambda>k. 0) param ! unat e)"
    unfolding arrayGet_def si length_riceTables nat_int using g by (simp_all only: if_True simp_thms)
  from assms(3) have nz: "riceConsumedTable (\<lambda>k. 0) param ! unat e \<noteq> 0"
    and v: "v = scast (riceValueTable (\<lambda>k. 0) param ! unat e)"
    and s': "s' = s\<lparr>bitBufferLen :=
                 (bitBufferLen s + 256 - unat (riceConsumedTable (\<lambda>k. 0) param ! unat e)) mod 256\<rparr>"
    unfolding riceFastSymbol_def e_def[symmetric] Let_def g1 g2
    by (simp_all split: if_splits)
  from riceTables_entry[OF u nz] obtain i where
    i: "riceCovers param i (unat e)"
       "riceConsumedTable (\<lambda>k. 0) param ! unat e = of_nat (riceNumBits param i)"
       "riceValueTable (\<lambda>k. 0) param ! unat e = riceTableValue i"
    by blast
  have "riceNumBits param i \<le> 13" using i(1) by (simp add: riceCovers_def RICE_DECODING_TABLE_BITS_def)
  then have u8: "unat (of_nat (riceNumBits param i) :: 8 word) = riceNumBits param i"
    by (simp add: unat_of_nat take_bit_nat_eq_self)
  have "bitBufferLen s + 256 - riceNumBits param i = (bitBufferLen s - riceNumBits param i) + 256"
    using assms(2) \<open>riceNumBits param i \<le> 13\<close> by (simp add: RICE_DECODING_TABLE_BITS_def)
  moreover have "bitBufferLen s - riceNumBits param i < 256" using assms(1) by simp
  ultimately have m:
    "(bitBufferLen s + 256 - riceNumBits param i) mod 256 = bitBufferLen s - riceNumBits param i"
    by (simp only: mod_add_self2 mod_less)
  have s'': "s' = s\<lparr>bitBufferLen := bitBufferLen s - riceNumBits param i\<rparr>"
    unfolding s' i(2) u8 m by (rule refl)
  have v': "v = scast (riceTableValue i)" unfolding v i(3) by (rule refl)
  show ?thesis
    unfolding s'' v' by (rule riceSlowSymbol_covered[OF assms(1,2) i(1)[unfolded e_def]])
qed

section \<open>\<^verbatim>\<open>fillBitBuffer\<close> moves bytes and keeps the stream\<close>

lemma and_255_byte: "(x :: 8 word) AND 0xFF = x"
proof -
  have "(0xFF :: 8 word) = - 1" by simp
  then show ?thesis by (simp only: word_bitwise_m1_simps)
qed

lemma fillBitBuffer_loop_ok:
  assumes "0 \<le> i" "nat i + k \<le> length (byteBuffer s)"
  shows "\<exists>b. fillBitBuffer_loop k i s = Inr (s\<lparr>bitBuffer := b\<rparr>) \<and>
             (\<forall>len. len + 8 * k \<le> 64 \<longrightarrow>
                bitsOf (len + 8 * k) b =
                  bitsOf len (bitBuffer s) @ concat (map (bitsOf 8) (take k (drop (nat i) (byteBuffer s)))))"
  using assms
proof (induction k arbitrary: i s)
  case 0
  have "s\<lparr>bitBuffer := bitBuffer s\<rparr> = s" by simp
  then show ?case by (intro exI[of _ "bitBuffer s"]) simp
next
  case (Suc k)
  define x where "x = byteBuffer s ! nat i"
  define s1 where "s1 = s\<lparr>bitBuffer := push_bit 8 (bitBuffer s) OR ucast (x AND 0xFF)\<rparr>"
  have lt: "nat i < length (byteBuffer s)" using Suc.prems by simp
  have g: "arrayGet (byteBuffer s) i = Inr x"
    using Suc.prems(1) lt by (simp add: arrayGet_def x_def)
  have step: "fillBitBuffer_loop (Suc k) i s = fillBitBuffer_loop k (i + 1) s1"
    by (simp add: g s1_def)
  have n1: "nat (i + 1) = Suc (nat i)" using Suc.prems(1) by simp
  have "\<exists>b. fillBitBuffer_loop k (i + 1) s1 = Inr (s1\<lparr>bitBuffer := b\<rparr>) \<and>
             (\<forall>len. len + 8 * k \<le> 64 \<longrightarrow>
                bitsOf (len + 8 * k) b =
                  bitsOf len (bitBuffer s1) @
                  concat (map (bitsOf 8) (take k (drop (nat (i + 1)) (byteBuffer s1)))))"
    using Suc.prems by (intro Suc.IH) (simp_all add: s1_def n1)
  then obtain b where
    b: "fillBitBuffer_loop k (i + 1) s1 = Inr (s1\<lparr>bitBuffer := b\<rparr>)"
       "\<forall>len. len + 8 * k \<le> 64 \<longrightarrow>
                bitsOf (len + 8 * k) b =
                  bitsOf len (bitBuffer s1) @
                  concat (map (bitsOf 8) (take k (drop (nat (i + 1)) (byteBuffer s1))))"
    by blast
  have dr: "take (Suc k) (drop (nat i) (byteBuffer s)) = x # take k (drop (Suc (nat i)) (byteBuffer s))"
    using lt by (simp add: x_def Cons_nth_drop_Suc[symmetric])
  have bits: "bitsOf (len + 8 * Suc k) b =
          bitsOf len (bitBuffer s) @ concat (map (bitsOf 8) (take (Suc k) (drop (nat i) (byteBuffer s))))"
    if len: "len + 8 * Suc k \<le> 64" for len
  proof -
    have l8: "len + 8 \<le> 64" "(len + 8) + 8 * k \<le> 64" using len by simp_all
    have a: "bitsOf (len + 8) (bitBuffer s1) = bitsOf len (bitBuffer s) @ bitsOf 8 x"
      using readByte_bits[OF l8(1), of "bitBuffer s" x] by (simp add: s1_def and_255_byte)
    have c: "bitsOf ((len + 8) + 8 * k) b =
        bitsOf (len + 8) (bitBuffer s1) @ concat (map (bitsOf 8) (take k (drop (nat (i + 1)) (byteBuffer s1))))"
      using b(2) l8(2) by blast
    have d: "len + 8 * Suc k = (len + 8) + 8 * k" by simp
    show ?thesis unfolding dr d c a by (simp add: n1 s1_def)
  qed
  have e: "s1\<lparr>bitBuffer := b\<rparr> = s\<lparr>bitBuffer := b\<rparr>" by (simp add: s1_def)
  show ?case
  proof (intro exI[of _ b] conjI allI impI)
    show "fillBitBuffer_loop (Suc k) i s = Inr (s\<lparr>bitBuffer := b\<rparr>)" using step b(1) e by simp
  next
    fix len assume "len + 8 * Suc k \<le> 64"
    then show "bitsOf (len + 8 * Suc k) b =
          bitsOf len (bitBuffer s) @ concat (map (bitsOf 8) (take (Suc k) (drop (nat i) (byteBuffer s))))"
      by (rule bits)
  qed
qed

lemma fillBitBuffer_ok:
  assumes "rinv s" "bitBufferLen s < 52" "byteBufferIndex s \<le> byteBufferLen s - 8"
  shows "\<exists>s'. fillBitBuffer s = Inr s' \<and> rinv s' \<and> rbits s' = rbits s \<and> 52 \<le> bitBufferLen s'"
proof -
  define i where "i = byteBufferIndex s"
  define bl where "bl = byteBufferLen s"
  define len where "len = bitBufferLen s"
  define k where "k = (64 - len) div 8"
  have inv: "length (byteBuffer s) = BUF_SIZE" "0 \<le> i" "bl \<le> int BUF_SIZE"
    using assms(1) by (simp_all add: rinv_def i_def bl_def)
  have k: "1 \<le> k" "k \<le> 8" "len + 8 * k \<le> 64" "56 < len + 8 * k"
    using assms(2) by (simp_all add: k_def len_def)
  have ib: "i + 8 \<le> bl" using assms(3) by (simp add: i_def bl_def)
  have n: "min (int ((64 - len) div 8)) (bl - i) = int k" using k ib by (simp add: k_def)
  have rng: "nat i + k \<le> length (byteBuffer s)" using inv k ib by simp
  from fillBitBuffer_loop_ok[OF inv(2) rng] obtain b where
    b: "fillBitBuffer_loop k i s = Inr (s\<lparr>bitBuffer := b\<rparr>)"
       "\<forall>len. len + 8 * k \<le> 64 \<longrightarrow>
                bitsOf (len + 8 * k) b =
                  bitsOf len (bitBuffer s) @ concat (map (bitsOf 8) (take k (drop (nat i) (byteBuffer s))))"
    by blast
  define s' where "s' = s\<lparr>bitBuffer := b, bitBufferLen := len + 8 * k, byteBufferIndex := i + int k\<rparr>"
  have f: "fillBitBuffer s = Inr s'"
    unfolding fillBitBuffer_def i_def[symmetric] bl_def[symmetric] len_def[symmetric] Let_def n
    using k b(1) by (simp add: s'_def len_def i_def nat_mult_distrib mult.commute)
  have r: "rinv s'" using assms(1) k ib inv by (simp add: rinv_def s'_def i_def bl_def)
  define m where "m = nat (bl - i) - k"
  have nm: "nat (bl - i) = k + m" using ib k by (simp add: m_def)
  have p: "pendingBytes s = take (k + m) (drop (nat i) (byteBuffer s)) @ drop (offset s) (data s)"
    using ib nm by (simp add: pendingBytes_def i_def[symmetric] bl_def[symmetric])
  have p': "pendingBytes s' = take m (drop (nat i + k) (byteBuffer s)) @ drop (offset s) (data s)"
  proof (cases "i + int k < bl")
    case True
    have "nat (bl - (i + int k)) = m" using nm by simp
    moreover have "nat (i + int k) = nat i + k" using inv(2) by simp
    ultimately show ?thesis using True
      by (simp add: pendingBytes_def s'_def bl_def[symmetric])
  next
    case False
    then have "m = 0" using nm ib by simp
    then show ?thesis using False by (simp add: pendingBytes_def s'_def bl_def[symmetric])
  qed
  have "take (k + m) (drop (nat i) (byteBuffer s))
          = take k (drop (nat i) (byteBuffer s)) @ take m (drop (nat i + k) (byteBuffer s))"
    by (simp add: take_add add.commute)
  moreover have "bitsOf (len + 8 * k) b =
       bitsOf len (bitBuffer s) @ concat (map (bitsOf 8) (take k (drop (nat i) (byteBuffer s))))"
    using b(2) k(3) by blast
  moreover have "bitBuffer s' = b" "bitBufferLen s' = len + 8 * k" by (simp_all add: s'_def)
  ultimately have "rbits s' = rbits s"
    unfolding rbits_def p p' by (simp add: len_def)
  then show ?thesis using f r k by (auto simp: s'_def)
qed

section \<open>\<^verbatim>\<open>StreamInfo::checkValues\<close> and \<^verbatim>\<open>StreamInfo::write\<close>\<close>

text \<open>
  Claim C4, as stated, fails: \<^verbatim>\<open>checkValues\<close> returns silently on a stream info whose
  \<open>minBlockSize\<close> and \<open>maxBlockSize\<close> are 0, although the data model asks for
  \<open>minBlockSize \<ge> 16\<close>.
\<close>

theorem StreamInfo_checkValues_counterexample:
  "StreamInfo_checkValues
     \<lparr>minBlockSize = 0, maxBlockSize = 0, minFrameSize = 0, maxFrameSize = 0,
      sampleRate = 44100, numChannels = 2, sampleDepth = 16, numSamples = 0,
      md5Hash = replicate 16 0\<rparr> = Inr ()
   \<and> \<not> streamInfoRanges
     \<lparr>minBlockSize = 0, maxBlockSize = 0, minFrameSize = 0, maxFrameSize = 0,
      sampleRate = 44100, numChannels = 2, sampleDepth = 16, numSamples = 0,
      md5Hash = replicate 16 0\<rparr>"
  by (simp add: StreamInfo_checkValues_def streamInfoRanges_def)

text \<open>
  Claim C4, amended: \<^verbatim>\<open>StreamInfo::checkValues\<close> returns silently if and only if the fields
  fit their widths on the wire: \<open>minBlockSize\<close> and \<open>maxBlockSize\<close> fit 16 bits,
  \<open>minFrameSize\<close> and \<open>maxFrameSize\<close> fit 24 bits, \<open>1 \<le> sampleRate < 2\<^sup>2\<^sup>0\<close>, \<open>numChannels\<close> is
  in \<open>[1, 8]\<close>, \<open>sampleDepth\<close> is in \<open>[4, 32]\<close> and \<open>numSamples < 2\<^sup>3\<^sup>6\<close>; it tests neither
  \<open>minBlockSize \<ge> 16\<close>, nor the order of the block sizes, nor the order of the frame sizes, nor
  \<open>sampleRate \<le> 655350\<close>. On any violation of these widths \<^verbatim>\<open>checkValues\<close> throws a
  \<^verbatim>\<open>std::runtime_error\<close>, and \<^verbatim>\<open>write(last, out)\<close> fails with that same exception and leaves
  the stream \<^verbatim>\<open>out\<close> as it found it: nothing has been written.
\<close>

theorem StreamInfo_checkValues_widths:
  "(StreamInfo_checkValues S = Inr () \<longleftrightarrow> streamInfoWidths S) \<and>
   (\<not> streamInfoWidths S \<longrightarrow>
      (\<exists>msg. StreamInfo_checkValues S = Inl (RuntimeError msg) \<and>
             StreamInfo_write isLast S out_stream = Inl (RuntimeError msg, out_stream)))"
proof (intro conjI impI)
  show "StreamInfo_checkValues S = Inr () \<longleftrightarrow> streamInfoWidths S"
    by (rule StreamInfo_checkValues_Inr_iff)
next
  assume "\<not> streamInfoWidths S"
  then have "StreamInfo_checkValues S \<noteq> Inr ()"
    by (simp add: StreamInfo_checkValues_Inr_iff)
  then obtain msg where "StreamInfo_checkValues S = Inl (RuntimeError msg)"
    using StreamInfo_checkValues_Inl by blast
  then show "\<exists>msg. StreamInfo_checkValues S = Inl (RuntimeError msg) \<and>
                  StreamInfo_write isLast S out_stream = Inl (RuntimeError msg, out_stream)"
    by (simp add: StreamInfo_write_def)
qed

theorem StreamInfo_checkValues_widths_witness:
  "\<not> streamInfoWidths
       \<lparr>minBlockSize = 4096, maxBlockSize = 4096, minFrameSize = 0, maxFrameSize = 0,
        sampleRate = 0, numChannels = 2, sampleDepth = 16, numSamples = 0,
        md5Hash = replicate 16 0\<rparr>
   \<and> StreamInfo_write True
       \<lparr>minBlockSize = 4096, maxBlockSize = 4096, minFrameSize = 0, maxFrameSize = 0,
        sampleRate = 0, numChannels = 2, sampleDepth = 16, numSamples = 0,
        md5Hash = replicate 16 0\<rparr> newBitOutputStream
     = Inl (RuntimeError ''Invalid sample rate'', newBitOutputStream)"
  using StreamInfo_checkValues_widths
    [of "\<lparr>minBlockSize = 4096, maxBlockSize = 4096, minFrameSize = 0, maxFrameSize = 0,
          sampleRate = 0, numChannels = 2, sampleDepth = 16, numSamples = 0,
          md5Hash = replicate 16 0\<rparr>" True newBitOutputStream]
  by (simp add: streamInfoWidths_def StreamInfo_checkValues_def)

section \<open>\<^verbatim>\<open>SeekTable::checkValues\<close>\<close>

lemma checkValues_from_iff:
  "checkValues_from i ps = Inr () \<longleftrightarrow>
     (\<forall>j. i \<le> j \<and> j < length ps \<longrightarrow> pairOk (ps ! (j - 1)) (ps ! j))"
proof (induction i ps rule: checkValues_from.induct)
  case (1 i points)
  show ?case
  proof (cases "i < length points")
    case False
    then show ?thesis by (subst checkValues_from.simps) auto
  next
    case True
    have split: "(\<forall>j. i \<le> j \<and> j < length points \<longrightarrow> pairOk (points ! (j - 1)) (points ! j)) \<longleftrightarrow>
        pairOk (points ! (i - 1)) (points ! i) \<and>
        (\<forall>j. i + 1 \<le> j \<and> j < length points \<longrightarrow> pairOk (points ! (j - 1)) (points ! j))"
      (is "?L \<longleftrightarrow> ?A \<and> ?R")
    proof
      assume ?L then show "?A \<and> ?R" using True by auto
    next
      assume h: "?A \<and> ?R"
      show ?L
      proof (intro allI impI)
        fix j assume "i \<le> j \<and> j < length points"
        then have "j = i \<or> (i + 1 \<le> j \<and> j < length points)" by auto
        then show "pairOk (points ! (j - 1)) (points ! j)" using h by auto
      qed
    qed
    show ?thesis
    proof (cases "sampleOffset (points ! i) \<noteq> 0xFFFFFFFFFFFFFFFF")
      case ph: False
      then have "checkValues_from i points = checkValues_from (i + 1) points"
        using True by (subst checkValues_from.simps) simp
      moreover have "pairOk (points ! (i - 1)) (points ! i)"
        using ph by (simp add: pairOk_def isPlaceholder_def)
      ultimately show ?thesis using "1.IH"(2)[OF True refl] ph split by simp
    next
      case nph: True
      show ?thesis
      proof (cases "sampleOffset (points ! i) \<le> sampleOffset (points ! (i - 1))
                    \<or> fileOffset (points ! i) < fileOffset (points ! (i - 1))")
        case bad: True
        then have "checkValues_from i points \<noteq> Inr ()"
          using True nph by (subst checkValues_from.simps) (auto simp: Let_def)
        moreover have "\<not> pairOk (points ! (i - 1)) (points ! i)"
          using bad nph by (auto simp: pairOk_def isPlaceholder_def)
        ultimately show ?thesis using split by simp
      next
        case good: False
        then have "checkValues_from i points = checkValues_from (i + 1) points"
          using True nph by (subst checkValues_from.simps) (auto simp: Let_def)
        moreover have "pairOk (points ! (i - 1)) (points ! i)"
          using good by (auto simp: pairOk_def)
        ultimately show ?thesis using "1.IH"(1)[OF True refl nph refl] good split by auto
      qed
    qed
  qed
qed

lemma successively_nth:
  "successively P xs \<longleftrightarrow> (\<forall>j. 1 \<le> j \<and> j < length xs \<longrightarrow> P (xs ! (j - 1)) (xs ! j))"
proof (induction P xs rule: successively.induct)
  case (3 P x y xs)
  show ?case
  proof
    assume a: "successively P (x # y # xs)"
    show "\<forall>j. 1 \<le> j \<and> j < length (x # y # xs) \<longrightarrow> P ((x # y # xs) ! (j - 1)) ((x # y # xs) ! j)"
    proof (intro allI impI)
      fix j assume j: "1 \<le> j \<and> j < length (x # y # xs)"
      show "P ((x # y # xs) ! (j - 1)) ((x # y # xs) ! j)"
      proof (cases "j = 1")
        case True then show ?thesis using a by simp
      next
        case False
        then obtain k where k: "j = Suc k" "1 \<le> k" "k < length (y # xs)"
          using j by (cases j) auto
        then have "P ((y # xs) ! (k - 1)) ((y # xs) ! k)" using a 3 by simp
        then show ?thesis using k by (cases k) auto
      qed
    qed
  next
    assume a: "\<forall>j. 1 \<le> j \<and> j < length (x # y # xs) \<longrightarrow> P ((x # y # xs) ! (j - 1)) ((x # y # xs) ! j)"
    have "P x y" using a[rule_format, of 1] by simp
    moreover have "\<forall>k. 1 \<le> k \<and> k < length (y # xs) \<longrightarrow> P ((y # xs) ! (k - 1)) ((y # xs) ! k)"
    proof (intro allI impI)
      fix k assume k: "1 \<le> k \<and> k < length (y # xs)"
      then show "P ((y # xs) ! (k - 1)) ((y # xs) ! k)"
        using a[rule_format, of "Suc k"] by (cases k) auto
    qed
    ultimately show "successively P (x # y # xs)" using 3 by simp
  qed
qed simp_all

lemma checkValues_successively:
  "SeekTable_checkValues ps = Inr () \<longleftrightarrow> successively pairOk ps"
  by (simp add: SeekTable_checkValues_def checkValues_from_iff successively_nth)

lemma placeholder_max:
  "\<not> isPlaceholder p \<Longrightarrow> isPlaceholder q \<Longrightarrow> \<not> sampleOffset q < sampleOffset p"
  unfolding isPlaceholder_def max64 by (simp add: word_order.extremum_strict)

lemma all_placeholder_filter:
  "list_all isPlaceholder zs \<Longrightarrow> filter (\<lambda>p. \<not> isPlaceholder p) zs = []"
  by (induction zs) auto

lemma orderInvariant_placeholder:
  "isPlaceholder y \<Longrightarrow> orderInvariant (y # zs) \<longleftrightarrow> list_all isPlaceholder zs"
  by (auto simp: orderInvariant_def all_placeholder_filter)

lemma orderInvariant_step:
  assumes "orderInvariant (y # zs)"
  shows "orderInvariant (x # y # zs) \<longleftrightarrow> pairOk x y"
proof (cases "isPlaceholder x")
  case True
  show ?thesis
  proof (cases "isPlaceholder y")
    case py: True
    then show ?thesis using True assms
      by (simp add: orderInvariant_placeholder pairOk_def)
  next
    case npy: False
    then have "\<not> pairOk x y" using True placeholder_max[of y x] by (simp add: pairOk_def)
    then show ?thesis using True npy by (simp add: orderInvariant_placeholder)
  qed
next
  case nx: False
  show ?thesis
  proof (cases "isPlaceholder y")
    case py: True
    then have "list_all isPlaceholder zs" using assms by (simp add: orderInvariant_placeholder)
    then show ?thesis using nx py
      by (simp add: orderInvariant_def all_placeholder_filter pairOk_def)
  next
    case npy: False
    then show ?thesis using nx assms
      by (auto simp: orderInvariant_def pairOk_def)
  qed
qed

lemma orderInvariant_tail:
  assumes "orderInvariant (x # y # zs)"
  shows "orderInvariant (y # zs)"
proof (cases "isPlaceholder x")
  case True
  then show ?thesis using assms by (auto simp: orderInvariant_def all_placeholder_filter)
next
  case False
  then show ?thesis using assms by (auto simp: orderInvariant_def)
qed

lemma successively_orderInvariant:
  "successively pairOk ps \<longleftrightarrow> orderInvariant ps"
proof (induction ps rule: induct_list012)
  case 1
  then show ?case by (simp add: orderInvariant_def)
next
  case (2 x)
  then show ?case by (simp add: orderInvariant_def)
next
  case (3 x y zs)
  show ?case
  proof (cases "orderInvariant (y # zs)")
    case True
    then show ?thesis using 3 orderInvariant_step[OF True, of x] by simp
  next
    case False
    then have "\<not> orderInvariant (x # y # zs)" using orderInvariant_tail by blast
    then show ?thesis using 3 False by simp
  qed
qed

lemma SeekTable_checkValues_order:
  "SeekTable_checkValues points = Inr () \<longleftrightarrow> orderInvariant points"
  by (simp add: checkValues_successively successively_orderInvariant)

text \<open>
  Claim C8, at its failing input. The comment on \<^verbatim>\<open>checkValues\<close> in \<^verbatim>\<open>SeekTable.h\<close> lists
  ``the \<^verbatim>\<open>frameSamples\<close> field of each point is a \<^verbatim>\<open>uint16\<close> value'' among the criteria, and
  \<^verbatim>\<open>StreamInfo::checkValues\<close> tests its two \<^verbatim>\<open>uint_fast16_t\<close> fields with \<^verbatim>\<open>>> 16\<close>; the
  function has no such test. It returns silently exactly when the placeholders are a suffix
  and the other points are in order, whatever the \<open>frameSamples\<close>: on the three points below,
  in order and with \<open>frameSamples = 65536\<close> in the second, a value which the field holds wherever
  \<^verbatim>\<open>uint_fast16_t\<close> has more than 16 bits, it returns silently although the invariant fails.
\<close>

theorem SeekTable_checkValues_frameSamples_unchecked:
  "(\<forall>points. SeekTable_checkValues points = Inr () \<longleftrightarrow> orderInvariant points) \<and>
   SeekTable_checkValues
     [\<lparr>sampleOffset = 0, fileOffset = 0, frameSamples = 4096\<rparr>,
      \<lparr>sampleOffset = 4096, fileOffset = 1024, frameSamples = 65536\<rparr>,
      \<lparr>sampleOffset = 0xFFFFFFFFFFFFFFFF, fileOffset = 7, frameSamples = 9\<rparr>] = Inr () \<and>
   \<not> seekTableInvariant
     [\<lparr>sampleOffset = 0, fileOffset = 0, frameSamples = 4096\<rparr>,
      \<lparr>sampleOffset = 4096, fileOffset = 1024, frameSamples = 65536\<rparr>,
      \<lparr>sampleOffset = 0xFFFFFFFFFFFFFFFF, fileOffset = 7, frameSamples = 9\<rparr>]"
  by (simp add: SeekTable_checkValues_order orderInvariant_def seekTableInvariant_def
      isPlaceholder_def)

section \<open>Round trip of the stream info block\<close>

text \<open>
  What the two functions do together, whatever the order of the operands and the width of
  \<^verbatim>\<open>long\<close>. For every stream info \<open>S\<close> whose fields are in the ranges of the data model (and
  whose \<open>md5Hash\<close> has its 16 bytes), \<^verbatim>\<open>write(last, out)\<close> on a byte-aligned writer succeeds
  and hands the writer exactly 38 bytes, which reach the sink with the next \<^verbatim>\<open>flush\<close>: the
  metadata block header \<open>[0x80 or 0x00, 0x00, 0x00, 0x22]\<close>, then 34 bytes of payload; and the
  parse of these 34 bytes yields every field of \<open>S\<close> but \<open>numSamples\<close>, for which it yields
  \<open>parsedNumSamples\<close>. With the left operand read first and a \<^verbatim>\<open>long\<close> of 36 bits or more that
  is \<open>numSamples S\<close>, and \<open>S\<close> is reproduced.
\<close>

lemma StreamInfo_write_parse:
  assumes ranges: "streamInfoRanges S" and md5: "length (md5Hash S) = 16"
    and w64: "wBitBufferLen w \<le> 64" and aligned: "wBitBufferLen w mod 8 = 0"
  shows "\<exists>s1 s2 w' bytes.
           StreamInfo_write isLast S w = Inr s1 \<and> flush w = Inr w' \<and> flush s1 = Inr s2 \<and>
           out s2 = out w' @ bytes \<and> length bytes = 38 \<and>
           take 4 bytes = [if isLast then 0x80 else 0, 0, 0, 34] \<and>
           concat (map (bitsOf 8) (drop 4 bytes)) =
             bitsOf 16 (of_nat (minBlockSize S) :: 32 word) @
             bitsOf 16 (of_nat (maxBlockSize S) :: 32 word) @
             bitsOf 24 (minFrameSize S) @ bitsOf 24 (maxFrameSize S) @ bitsOf 20 (sampleRate S) @
             bitsOf 3 (ucast (numChannels S) - 1 :: 32 word) @
             bitsOf 5 (ucast (sampleDepth S) - 1 :: 32 word) @
             bitsOf 18 (ucast (drop_bit 18 (numSamples S)) :: 32 word) @
             bitsOf 18 (ucast (drop_bit 0 (numSamples S)) :: 32 word) @
             concat (map (bitsOf 8) (md5Hash S)) @ [] \<and>
           StreamInfo_parse ord longBits (drop 4 bytes)
             = Inr (S\<lparr>numSamples := parsedNumSamples ord longBits (numSamples S)\<rparr>)"
proof -
  define hdr :: "(int \<times> 32 word) list" where "hdr = [(1, if isLast then 1 else 0), (7, 0), (24, 34)]"
  define fixd :: "(int \<times> 32 word) list" where "fixd =
             [(16, of_nat (minBlockSize S)),
              (16, of_nat (maxBlockSize S)),
              (24, minFrameSize S),
              (24, maxFrameSize S),
              (20, sampleRate S),
              (3, ucast (numChannels S) - 1),
              (5, ucast (sampleDepth S) - 1),
              (18, ucast (drop_bit 18 (numSamples S))),
              (18, ucast (drop_bit 0 (numSamples S)))]"
  define md where "md = map (\<lambda>b. (8 :: int, ucast b :: 32 word)) (md5Hash S)"
  define toBits :: "(int \<times> 32 word) list \<Rightarrow> bool list" where
    "toBits = (\<lambda>nvs. concat (map (\<lambda>nv. bitsOf (nat (fst nv)) (snd nv)) nvs))"
  have cv: "StreamInfo_checkValues S = Inr ()"
    using ranges by (simp add: StreamInfo_checkValues_Inr_iff ranges_imp_widths)
  have wr: "StreamInfo_write isLast S w = writeIntsE (hdr @ fixd @ md) w"
    by (simp add: StreamInfo_write_def cv hdr_def fixd_def md_def)
  have rng: "\<forall>nv \<in> set (hdr @ fixd @ md). 0 \<le> fst nv \<and> fst nv \<le> 32"
    by (auto simp: hdr_def fixd_def md_def)
  from writeInts_total[OF rng w64] obtain s1 where
    s1: "writeInts (hdr @ fixd @ md) w = Inr s1" "wbits s1 = wbits w @ toBits (hdr @ fixd @ md)"
        "wBitBufferLen s1 \<le> 64"
    unfolding toBits_def by blast
  obtain w' where w': "flush w = Inr w'" "wbits w' = wbits w" "wBitBufferLen w' = wBitBufferLen w mod 8"
    using flush_total by blast
  obtain s2 where s2: "flush s1 = Inr s2" "wbits s2 = wbits s1" "wBitBufferLen s2 = wBitBufferLen s1 mod 8"
    using flush_total by blast
  have mdbits: "toBits md = concat (map (bitsOf 8) (md5Hash S))"
    by (simp add: toBits_def md_def comp_def bitsOf_8_ucast)
  have lmd: "length (toBits md) = 128" using md5 by (simp add: mdbits length_bytes_bits)
  have lhdr: "length (toBits hdr) = 32" by (simp add: toBits_def hdr_def)
  have lfix: "length (toBits fixd) = 144" by (simp add: toBits_def fixd_def)
  have tb_app: "toBits (hdr @ fixd @ md) = toBits hdr @ toBits fixd @ toBits md"
    by (simp add: toBits_def)
  have lall: "length (toBits (hdr @ fixd @ md)) = 304" using lmd lhdr lfix by (simp add: tb_app)
  have "length (wbits s1) = 8 * length (out w) + wBitBufferLen w + 304"
    using s1(2) lall by (simp add: length_wbits)
  then have "length (wbits s1) mod 8 = 0"
    using aligned by presburger
  then have "wBitBufferLen s1 mod 8 = 0" unfolding length_wbits by presburger
  then have o2: "wbits s2 = concat (map (bitsOf 8) (out s2))" using s2(3) by (simp add: wbits_def)
  have ow: "wbits w' = concat (map (bitsOf 8) (out w'))" using w'(3) aligned by (simp add: wbits_def)
  have "concat (map (bitsOf 8) (out s2)) = concat (map (bitsOf 8) (out w')) @ toBits (hdr @ fixd @ md)"
    using o2 ow s2(2) s1(2) w'(2) by simp
  from bytes_of_bits_split[OF this] obtain bytes where
    bytes: "out s2 = out w' @ bytes" "concat (map (bitsOf 8) bytes) = toBits (hdr @ fixd @ md)"
    by blast
  have lb: "length bytes = 38"
  proof -
    have "8 * length bytes = 304" using bytes(2) lall length_bytes_bits[of bytes] by simp
    then show ?thesis by simp
  qed
  have "concat (map (bitsOf 8) (take 4 bytes)) = take (8 * 4) (toBits (hdr @ fixd @ md))"
    using take_bytes_bits[of 4 bytes] bytes(2) by simp
  also have "\<dots> = toBits hdr" using lhdr by (simp add: tb_app)
  also have "\<dots> = concat (map (bitsOf 8) [if isLast then 0x80 else 0, 0, 0, 34 :: 8 word])"
    using header_bits[of isLast] by (simp add: toBits_def hdr_def)
  finally have h4: "take 4 bytes = [if isLast then 0x80 else 0, 0, 0, 34]"
    by (rule bytes_of_bits_inj)
  have "concat (map (bitsOf 8) (drop 4 bytes)) = drop (8 * 4) (toBits (hdr @ fixd @ md))"
    using drop_bytes_bits[of 4 bytes] bytes(2) by simp
  also have "\<dots> = toBits fixd @ toBits md" using lhdr by (simp add: tb_app)
  finally have pl: "concat (map (bitsOf 8) (drop 4 bytes)) = toBits fixd @ toBits md" .
  have fb: "concat (map (bitsOf 8) (drop 4 bytes)) =
      bitsOf 16 (of_nat (minBlockSize S) :: 32 word) @ bitsOf 16 (of_nat (maxBlockSize S) :: 32 word) @
      bitsOf 24 (minFrameSize S) @ bitsOf 24 (maxFrameSize S) @ bitsOf 20 (sampleRate S) @
      bitsOf 3 (ucast (numChannels S) - 1 :: 32 word) @ bitsOf 5 (ucast (sampleDepth S) - 1 :: 32 word) @
      bitsOf 18 (ucast (drop_bit 18 (numSamples S)) :: 32 word) @
      bitsOf 18 (ucast (drop_bit 0 (numSamples S)) :: 32 word) @
      concat (map (bitsOf 8) (md5Hash S)) @ []"
    unfolding pl mdbits by (simp add: toBits_def fixd_def)
  have "length (drop 4 bytes) = 34" using lb by simp
  from StreamInfo_parse_bits[OF ranges md5 this fb]
  have "StreamInfo_parse ord longBits (drop 4 bytes)
          = Inr (S\<lparr>numSamples := parsedNumSamples ord longBits (numSamples S)\<rparr>)" .
  moreover have "StreamInfo_write isLast S w = Inr s1" using wr writeIntsE_Inr[OF s1(1)] by simp
  ultimately have
    "StreamInfo_write isLast S w = Inr s1 \<and> flush w = Inr w' \<and> flush s1 = Inr s2 \<and>
     out s2 = out w' @ bytes \<and> length bytes = 38 \<and>
     take 4 bytes = [if isLast then 0x80 else 0, 0, 0, 34] \<and>
     concat (map (bitsOf 8) (drop 4 bytes)) =
       bitsOf 16 (of_nat (minBlockSize S) :: 32 word) @
       bitsOf 16 (of_nat (maxBlockSize S) :: 32 word) @
       bitsOf 24 (minFrameSize S) @ bitsOf 24 (maxFrameSize S) @ bitsOf 20 (sampleRate S) @
       bitsOf 3 (ucast (numChannels S) - 1 :: 32 word) @
       bitsOf 5 (ucast (sampleDepth S) - 1 :: 32 word) @
       bitsOf 18 (ucast (drop_bit 18 (numSamples S)) :: 32 word) @
       bitsOf 18 (ucast (drop_bit 0 (numSamples S)) :: 32 word) @
       concat (map (bitsOf 8) (md5Hash S)) @ [] \<and>
     StreamInfo_parse ord longBits (drop 4 bytes)
       = Inr (S\<lparr>numSamples := parsedNumSamples ord longBits (numSamples S)\<rparr>)"
    using w'(1) s2(1) bytes(1) lb h4 fb by (simp only: simp_thms)
  then show ?thesis by (intro exI)
qed

lemma StreamInfo_write_parse_roundtrip:
  assumes "streamInfoRanges S" "length (md5Hash S) = 16"
    and "wBitBufferLen w \<le> 64" "wBitBufferLen w mod 8 = 0" and "36 \<le> longBits"
  shows "\<exists>s1 s2 w' bytes.
           StreamInfo_write isLast S w = Inr s1 \<and> flush w = Inr w' \<and> flush s1 = Inr s2 \<and>
           out s2 = out w' @ bytes \<and> length bytes = 38 \<and>
           take 4 bytes = [if isLast then 0x80 else 0, 0, 0, 34] \<and>
           StreamInfo_parse LeftFirst longBits (drop 4 bytes) = Inr S"
proof -
  have "unat (numSamples S) < 2 ^ 36" using assms(1) by (simp add: streamInfoRanges_def)
  then have "parsedNumSamples LeftFirst longBits (numSamples S) = numSamples S"
    using assms(5) by (rule parsedNumSamples_LeftFirst)
  moreover from StreamInfo_write_parse[OF assms(1-4), of isLast LeftFirst longBits]
  obtain s1 s2 w' bytes where
    "StreamInfo_write isLast S w = Inr s1" "flush w = Inr w'" "flush s1 = Inr s2"
    "out s2 = out w' @ bytes" "length bytes = 38"
    "take 4 bytes = [if isLast then 0x80 else 0, 0, 0, 34]"
    "StreamInfo_parse LeftFirst longBits (drop 4 bytes)
       = Inr (S\<lparr>numSamples := parsedNumSamples LeftFirst longBits (numSamples S)\<rparr>)"
    by blast
  ultimately have
    "StreamInfo_write isLast S w = Inr s1 \<and> flush w = Inr w' \<and> flush s1 = Inr s2 \<and>
     out s2 = out w' @ bytes \<and> length bytes = 38 \<and>
     take 4 bytes = [if isLast then 0x80 else 0, 0, 0, 34] \<and>
     StreamInfo_parse LeftFirst longBits (drop 4 bytes) = Inr S"
    by simp
  then show ?thesis by (intro exI)
qed

text \<open>
  Claim C5, at its failing input: the stream info with \<open>numSamples = 2\<^sup>3\<^sup>5\<close>, in the ranges of
  the data model. \<^verbatim>\<open>write\<close> emits the 38 bytes below. Parsing the 34 bytes of payload gives
  the stream info back when the left operand of \<^verbatim>\<open>|\<close> is read first and \<^verbatim>\<open>long\<close> has 64 bits;
  with a \<^verbatim>\<open>long\<close> of 32 bits the upper half is shifted out and \<open>numSamples\<close> comes back as \<open>0\<close>;
  with the right operand read first the two halves change places and it comes back as
  \<open>2\<^sup>1\<^sup>7\<close>. (And as the headers stand the parsing constructor does not compile at all: see the
  assumption made with \<open>readUnderlyingBytes\<close>.)
\<close>

theorem StreamInfo_numSamples_not_reproduced:
  "streamInfoRanges
     \<lparr>minBlockSize = 4096, maxBlockSize = 4096, minFrameSize = 0, maxFrameSize = 0,
      sampleRate = 44100, numChannels = 2, sampleDepth = 16, numSamples = 0x800000000,
      md5Hash = replicate 16 0\<rparr> \<and>
   (\<exists>s1 s2.
      StreamInfo_write True
        \<lparr>minBlockSize = 4096, maxBlockSize = 4096, minFrameSize = 0, maxFrameSize = 0,
         sampleRate = 44100, numChannels = 2, sampleDepth = 16, numSamples = 0x800000000,
         md5Hash = replicate 16 0\<rparr> newBitOutputStream = Inr s1 \<and>
      flush s1 = Inr s2 \<and>
      out s2 = [0x80, 0, 0, 0x22,
                0x10, 0, 0x10, 0, 0, 0, 0, 0, 0, 0, 0x0A, 0xC4, 0x42, 0xF8, 0, 0, 0, 0,
                0, 0, 0, 0, 0, 0, 0, 0, 0, 0, 0, 0, 0, 0, 0, 0]) \<and>
   StreamInfo_parse LeftFirst 64
     [0x10, 0, 0x10, 0, 0, 0, 0, 0, 0, 0, 0x0A, 0xC4, 0x42, 0xF8, 0, 0, 0, 0,
      0, 0, 0, 0, 0, 0, 0, 0, 0, 0, 0, 0, 0, 0, 0, 0]
     = Inr \<lparr>minBlockSize = 4096, maxBlockSize = 4096, minFrameSize = 0, maxFrameSize = 0,
            sampleRate = 44100, numChannels = 2, sampleDepth = 16, numSamples = 0x800000000,
            md5Hash = replicate 16 0\<rparr> \<and>
   StreamInfo_parse LeftFirst 32
     [0x10, 0, 0x10, 0, 0, 0, 0, 0, 0, 0, 0x0A, 0xC4, 0x42, 0xF8, 0, 0, 0, 0,
      0, 0, 0, 0, 0, 0, 0, 0, 0, 0, 0, 0, 0, 0, 0, 0]
     = Inr \<lparr>minBlockSize = 4096, maxBlockSize = 4096, minFrameSize = 0, maxFrameSize = 0,
            sampleRate = 44100, numChannels = 2, sampleDepth = 16, numSamples = 0,
            md5Hash = replicate 16 0\<rparr> \<and>
   StreamInfo_parse RightFirst 64
     [0x10, 0, 0x10, 0, 0, 0, 0, 0, 0, 0, 0x0A, 0xC4, 0x42, 0xF8, 0, 0, 0, 0,
      0, 0, 0, 0, 0, 0, 0, 0, 0, 0, 0, 0, 0, 0, 0, 0]
     = Inr \<lparr>minBlockSize = 4096, maxBlockSize = 4096, minFrameSize = 0, maxFrameSize = 0,
            sampleRate = 44100, numChannels = 2, sampleDepth = 16, numSamples = 0x20000,
            md5Hash = replicate 16 0\<rparr>"
proof -
  define S where "S = \<lparr>minBlockSize = 4096, maxBlockSize = 4096, minFrameSize = 0, maxFrameSize = 0,
      sampleRate = 44100, numChannels = 2, sampleDepth = 16, numSamples = (0x800000000 :: 64 word),
      md5Hash = replicate 16 0\<rparr>"
  define payload :: "8 word list" where "payload =
     [0x10, 0, 0x10, 0, 0, 0, 0, 0, 0, 0, 0x0A, 0xC4, 0x42, 0xF8, 0, 0, 0, 0,
      0, 0, 0, 0, 0, 0, 0, 0, 0, 0, 0, 0, 0, 0, 0, 0]"
  have ranges: "streamInfoRanges S" by (simp add: S_def streamInfoRanges_def)
  have md5: "length (md5Hash S) = 16" by (simp add: S_def)
  have fl: "flush newBitOutputStream = Inr newBitOutputStream"
    by (simp add: flush_def flush_loop.simps newBitOutputStream_def)
  have pb: "concat (map (bitsOf 8) payload) =
      bitsOf 16 (of_nat 4096 :: 32 word) @ bitsOf 16 (of_nat 4096 :: 32 word) @
      bitsOf 24 (0 :: 32 word) @ bitsOf 24 (0 :: 32 word) @ bitsOf 20 (44100 :: 32 word) @
      bitsOf 3 (ucast (2 :: 8 word) - 1 :: 32 word) @ bitsOf 5 (ucast (16 :: 8 word) - 1 :: 32 word) @
      bitsOf 18 (ucast (drop_bit 18 (0x800000000 :: 64 word)) :: 32 word) @
      bitsOf 18 (ucast (drop_bit 0 (0x800000000 :: 64 word)) :: 32 word) @
      concat (map (bitsOf 8) (replicate 16 (0 :: 8 word))) @ []"
    unfolding payload_def by code_simp
  have pn: "parsedNumSamples LeftFirst 64 0x800000000 = 0x800000000"
    "parsedNumSamples LeftFirst 32 0x800000000 = 0"
    "parsedNumSamples RightFirst 64 0x800000000 = 0x20000"
    by code_simp+
  from StreamInfo_write_parse[OF ranges md5, of newBitOutputStream True LeftFirst 64]
  obtain s1 s2 w' bytes where w:
    "StreamInfo_write True S newBitOutputStream = Inr s1" "flush newBitOutputStream = Inr w'"
    "flush s1 = Inr s2" "out s2 = out w' @ bytes" "length bytes = 38"
    "take 4 bytes = [0x80, 0, 0, 34]"
    "concat (map (bitsOf 8) (drop 4 bytes)) =
      bitsOf 16 (of_nat (minBlockSize S) :: 32 word) @ bitsOf 16 (of_nat (maxBlockSize S) :: 32 word) @
      bitsOf 24 (minFrameSize S) @ bitsOf 24 (maxFrameSize S) @ bitsOf 20 (sampleRate S) @
      bitsOf 3 (ucast (numChannels S) - 1 :: 32 word) @ bitsOf 5 (ucast (sampleDepth S) - 1 :: 32 word) @
      bitsOf 18 (ucast (drop_bit 18 (numSamples S)) :: 32 word) @
      bitsOf 18 (ucast (drop_bit 0 (numSamples S)) :: 32 word) @
      concat (map (bitsOf 8) (md5Hash S)) @ []"
    by (auto simp: newBitOutputStream_def)
  have "concat (map (bitsOf 8) (drop 4 bytes)) = concat (map (bitsOf 8) payload)"
    unfolding pb w(7) by (simp add: S_def)
  then have d4: "drop 4 bytes = payload" by (rule bytes_of_bits_inj)
  have "bytes = take 4 bytes @ drop 4 bytes" by simp
  then have bytes: "bytes = [0x80, 0, 0, 0x22] @ payload" unfolding d4 w(6) by simp
  have "w' = newBitOutputStream" using w(2) fl by simp
  then have o2: "out s2 = [0x80, 0, 0, 0x22] @ payload"
    using w(4) bytes by (simp add: newBitOutputStream_def)
  have bits: "concat (map (bitsOf 8) payload) =
      bitsOf 16 (of_nat (minBlockSize S) :: 32 word) @ bitsOf 16 (of_nat (maxBlockSize S) :: 32 word) @
      bitsOf 24 (minFrameSize S) @ bitsOf 24 (maxFrameSize S) @ bitsOf 20 (sampleRate S) @
      bitsOf 3 (ucast (numChannels S) - 1 :: 32 word) @ bitsOf 5 (ucast (sampleDepth S) - 1 :: 32 word) @
      bitsOf 18 (ucast (drop_bit 18 (numSamples S)) :: 32 word) @
      bitsOf 18 (ucast (drop_bit 0 (numSamples S)) :: 32 word) @
      concat (map (bitsOf 8) (md5Hash S)) @ []"
    using w(7) d4 by simp
  have len: "length payload = 34" by (simp add: payload_def)
  have p: "StreamInfo_parse ord longBits payload
             = Inr (S\<lparr>numSamples := parsedNumSamples ord longBits 0x800000000\<rparr>)" for ord longBits
    using StreamInfo_parse_bits[OF ranges md5 len bits, of ord longBits] by (simp add: S_def)
  show ?thesis
    using ranges w(1,3) o2 p[of LeftFirst 64] p[of LeftFirst 32] p[of RightFirst 64]
    unfolding pn by (simp add: S_def payload_def)
qed

section \<open>\<^verbatim>\<open>FrameInfo::writeHeader\<close> on the frame-index form\<close>

text \<open>
  Claim C10: for every frame info in the fixed-block-size form, \<open>frameIndex \<noteq> -1\<close> and
  \<open>sampleOffset = -1\<close>, and every writer, \<^verbatim>\<open>writeHeader\<close> fails. The form passes the test of
  mutual exclusion, after which \<^verbatim>\<open>writeUtf8Integer\<close> is given \<^verbatim>\<open>(uint_fast64_t)sampleOffset\<close>,
  that is \<open>2\<^sup>6\<^sup>4 - 1\<close>, and rejects it as not fitting 36 bits; the only failures that can come
  earlier are those of the three code selections, in the order of the source. So no header
  of this form is ever serialized.
\<close>

theorem writeHeader_frameIndex_form_fails:
  assumes "frameIndex f \<noteq> - 1" "fSampleOffset f = - 1"
  shows "(\<exists>e. writeHeader f s = Inl e) \<and>
         writeHeader f s =
           (case getBlockSizeCode (blockSize f) of
              Inl e \<Rightarrow> Inl e
            | Inr _ \<Rightarrow>
                (case getSampleRateCode (fSampleRate f) of
                   Inl e \<Rightarrow> Inl e
                 | Inr _ \<Rightarrow>
                     (case getSampleDepthCode (fSampleDepth f) of
                        Inl e \<Rightarrow> Inl e
                      | Inr _ \<Rightarrow> Inl (InvalidArgument ''Given value does not fit into uint36 type''))))"
proof -
  obtain s0 where s0: "resetCrcsW s = Inr s0" "wBitBufferLen s0 \<le> 64"
    using resetCrcsW_total by blast
  obtain s1 where s1: "writeInts [(14, 0x3FFE), (1, 0), (1, 1)] s0 = Inr s1" "wBitBufferLen s1 \<le> 64"
    using writeInts_total[of "[(14, 0x3FFE), (1, 0), (1, 1)]" s0] s0(2) by auto
  have eq: "writeHeader f s =
           (case getBlockSizeCode (blockSize f) of
              Inl e \<Rightarrow> Inl e
            | Inr _ \<Rightarrow>
                (case getSampleRateCode (fSampleRate f) of
                   Inl e \<Rightarrow> Inl e
                 | Inr _ \<Rightarrow>
                     (case getSampleDepthCode (fSampleDepth f) of
                        Inl e \<Rightarrow> Inl e
                      | Inr _ \<Rightarrow> Inl (InvalidArgument ''Given value does not fit into uint36 type''))))"
  proof (cases "getBlockSizeCode (blockSize f)")
    case (Inl e)
    then show ?thesis using s0 s1 by (simp add: writeHeader_def)
  next
    case bsc: (Inr blockSizeCode)
    obtain s2 where s2: "writeInt 4 (ucast blockSizeCode) s1 = Inr s2" "wBitBufferLen s2 \<le> 64"
      using writeInt_total[of 4 s1 "ucast blockSizeCode"] s1(2) by auto
    show ?thesis
    proof (cases "getSampleRateCode (fSampleRate f)")
      case (Inl e)
      then show ?thesis using s0 s1 bsc s2 by (simp add: writeHeader_def)
    next
      case src: (Inr sampleRateCode)
      obtain s3 where s3: "writeInts [(4, ucast sampleRateCode), (4, channelAssignment f)] s2 = Inr s3"
          "wBitBufferLen s3 \<le> 64"
        using writeInts_total[of "[(4, ucast sampleRateCode), (4, channelAssignment f)]" s2] s2(2) by auto
      show ?thesis
      proof (cases "getSampleDepthCode (fSampleDepth f)")
        case (Inl e)
        then show ?thesis using s0 s1 bsc s2 src s3 by (simp add: writeHeader_def)
      next
        case sdc: (Inr sampleDepthCode)
        obtain s4 where s4: "writeInts [(3, ucast sampleDepthCode), (1, 0)] s3 = Inr s4"
          using writeInts_total[of "[(3, ucast sampleDepthCode), (1, 0)]" s3] s3(2) by auto
        show ?thesis
          using s0 s1 bsc s2 src s3 sdc s4 assms
          by (simp add: writeHeader_def writeUtf8Integer_absent)
      qed
    qed
  qed
  moreover have "\<exists>e. writeHeader f s = Inl e"
    unfolding eq by (auto split: sum.splits)
  ultimately show ?thesis by blast
qed

theorem writeHeader_frameIndex_form_fails_witness:
  "writeHeader \<lparr>frameIndex = 7, fSampleOffset = - 1, fNumChannels = 2, channelAssignment = 1,
                blockSize = 512, fSampleRate = 44100, fSampleDepth = 16, frameSize = - 1\<rparr>
     newBitOutputStream
   = Inl (InvalidArgument ''Given value does not fit into uint36 type'')"
  using writeHeader_frameIndex_form_fails
    [of "\<lparr>frameIndex = 7, fSampleOffset = - 1, fNumChannels = 2, channelAssignment = 1,
          blockSize = 512, fSampleRate = 44100, fSampleDepth = 16, frameSize = - 1\<rparr>"
        newBitOutputStream]
  by (simp add: getBlockSizeCode_def getSampleRateCode_def getSampleDepthCode_def
      BLOCK_SIZE_CODES_def SAMPLE_RATE_CODES_def SAMPLE_DEPTH_CODES_def)

section \<open>\<^verbatim>\<open>readRiceSignedInts\<close> with parameter 31\<close>

text \<open>
  Claim C9, at its failing input: there are \<^verbatim>\<open>RICE_DECODING_TABLE_LEN = 31\<close> tables of each
  kind, for the parameters 0 to 30, and the parameter 31 passes the test
  \<^verbatim>\<open>param < 0 || param > 31\<close>; for it, \<^verbatim>\<open>RICE_DECODING_CONSUMED_TABLES[param]\<close> reads past
  the end of the array, whatever the other arguments, the state of the reader and the
  content of the tables.
\<close>

theorem readRiceSignedInts_param_31_out_of_bounds:
  "length (RICE_DECODING_CONSUMED_TABLES freshC) = 31 \<and>
   length (RICE_DECODING_VALUE_TABLES freshV) = 31 \<and>
   readRiceSignedInts freshC freshV 31 result start stop s = Inl OutOfBounds"
  by (simp add: readRiceSignedInts_def arrayGet_def RICE_DECODING_CONSUMED_TABLES_def
      RICE_DECODING_VALUE_TABLES_def RICE_DECODING_TABLE_LEN_def)

section \<open>The assertions of \<^verbatim>\<open>getCrc8\<close> and \<^verbatim>\<open>getCrc16\<close>\<close>

text \<open>
  Claim C3, at its failing inputs: the assertions \<^verbatim>\<open>assert((crc8 >> 8) != 0)\<close> and
  \<^verbatim>\<open>assert((crc16 >> 16) != 0)\<close> ask for an accumulator that does \<^emph>\<open>not\<close> fit its width. On
  the writer, whose accumulators have 8 and 16 bits, \<^verbatim>\<open>getCrc8\<close> and \<^verbatim>\<open>getCrc16\<close> never
  return a value, in any state; on a freshly constructed writer, and on a freshly
  constructed reader over any bytes, both fail on their assertion.
\<close>

theorem getCrc_assertions_fail:
  "(\<forall>r. getCrc8W w \<noteq> Inr r) \<and> (\<forall>r. getCrc16W w \<noteq> Inr r) \<and>
   getCrc8W newBitOutputStream = Inl AssertionFailed \<and>
   getCrc16W newBitOutputStream = Inl AssertionFailed \<and>
   getCrc8 (newByteArrayFlacInput b) = Inl AssertionFailed \<and>
   getCrc16 (newByteArrayFlacInput b) = Inl AssertionFailed"
proof (intro conjI allI)
  fix r show "getCrc8W w \<noteq> Inr r"
    by (simp add: getCrc8W_def drop_bit_8_ucast8 split: sum.splits)
next
  fix r show "getCrc16W w \<noteq> Inr r"
    by (simp add: getCrc16W_def drop_bit_16_ucast16 split: sum.splits)
next
  show "getCrc8W newBitOutputStream = Inl AssertionFailed" by code_simp
next
  show "getCrc16W newBitOutputStream = Inl AssertionFailed" by code_simp
next
  show "getCrc8 (newByteArrayFlacInput b) = Inl AssertionFailed"
    by (simp add: getCrc8_def newByteArrayFlacInput_def checkByteAligned_def updateCrcs_def
        updateCrcs_loop.simps)
next
  show "getCrc16 (newByteArrayFlacInput b) = Inl AssertionFailed"
    by (simp add: getCrc16_def newByteArrayFlacInput_def checkByteAligned_def updateCrcs_def
        updateCrcs_loop.simps)
qed

section \<open>The CRCs of the writer\<close>

text \<open>
  Claim C2, at its failing input, the six bytes \<open>4D 6F 6E 6B 65 79\<close>. Their standalone
  CRC-8 is \<open>0x4C\<close> and their standalone CRC-16 is \<open>0x4BFE\<close>. A writer that is reset, is
  given these bytes and is flushed has put out the six bytes and holds \<open>0\<close> in \<^verbatim>\<open>crc8\<close>:
  \<^verbatim>\<open>crc8 <<= 1\<close> drops the bit that \<^verbatim>\<open>(crc8 >> 8) * 0x107\<close> was to test, the field being 8 bits
  wide. Its \<^verbatim>\<open>getCrc8\<close> and \<^verbatim>\<open>getCrc16\<close> fail on their assertions. These three facts do
  not depend on the width of \<^verbatim>\<open>uint_fast16_t\<close>. The third component below is the field
  \<^verbatim>\<open>crc16\<close> at 16 bits, which \<^verbatim>\<open>crc16 <<= 1\<close> empties in the same way; in a wider
  \<^verbatim>\<open>uint_fast16_t\<close> the bit survives and the field would hold \<open>0x4BFE\<close>.
\<close>

theorem crc_of_Monkey_writer:
  "crc8Standalone [0x4D, 0x6F, 0x6E, 0x6B, 0x65, 0x79] = 0x4C \<and>
   crc16Standalone [0x4D, 0x6F, 0x6E, 0x6B, 0x65, 0x79] = 0x4BFE \<and>
   (case resetCrcsW newBitOutputStream of
      Inl e \<Rightarrow> None
    | Inr s0 \<Rightarrow>
        (case writeInts (map (\<lambda>b. (8, b)) [0x4D, 0x6F, 0x6E, 0x6B, 0x65, 0x79]) s0 of
           Inl e \<Rightarrow> None
         | Inr s \<Rightarrow>
             (case flush s of
                Inl e \<Rightarrow> None
              | Inr s' \<Rightarrow> Some (out s', wCrc8 s', (wCrc16 s' :: 16 word), getCrc8W s, getCrc16W s))))
     = Some ([0x4D, 0x6F, 0x6E, 0x6B, 0x65, 0x79], 0, 0,
             Inl AssertionFailed, Inl AssertionFailed)"
  by code_simp

section \<open>The frame header of the example\<close>

text \<open>
  Claim C6, at its input: for the frame info with \<open>channelAssignment = 1\<close>,
  \<open>blockSize = 512\<close>, \<open>sampleRate = 44100\<close>, \<open>sampleDepth = 16\<close>, \<open>sampleOffset = 0\<close> and
  \<open>frameIndex = -1\<close>, \<^verbatim>\<open>writeHeader\<close> on a fresh writer does not return: it fails on the
  assertion of the writer's \<^verbatim>\<open>getCrc8\<close>. The five bytes it has written by then are
  \<open>FF F9 99 18 00\<close>, whose CRC-8 is \<open>0xF0\<close>; \<^verbatim>\<open>readFrame\<close> on the header completed with
  that CRC byte fails as well, on the assertion of the reader's \<^verbatim>\<open>getCrc8\<close>.
\<close>

theorem frame_header_write_and_read_fail:
  "writeHeader \<lparr>frameIndex = - 1, fSampleOffset = 0, fNumChannels = 2, channelAssignment = 1,
                blockSize = 512, fSampleRate = 44100, fSampleDepth = 16, frameSize = - 1\<rparr>
     newBitOutputStream = Inl AssertionFailed \<and>
   crc8Standalone [0xFF, 0xF9, 0x99, 0x18, 0x00] = 0xF0 \<and>
   readFrame (newByteArrayFlacInput [0xFF, 0xF9, 0x99, 0x18, 0x00, 0xF0]) = Inl AssertionFailed"
  by code_simp

section \<open>The UTF-8 integer 128\<close>

text \<open>
  Claim C7, at its failing input \<open>v = 128\<close>: \<^verbatim>\<open>numberOfLeadingZeros((uint64_t)128)\<close> is 58
  instead of 56, because \<^verbatim>\<open>n -= x >> 31\<close> shifts the negative \<^verbatim>\<open>int\<close> \<open>x\<close> arithmetically
  and so adds 1 where it should subtract 1; hence \<^verbatim>\<open>bitLen = 6\<close> and
  \<^verbatim>\<open>writeUtf8Integer\<close> emits the single byte \<open>0x80\<close>, which \<^verbatim>\<open>readUtf8Integer\<close> rejects
  as a head byte with one leading 1 bit.
\<close>

theorem utf8_integer_128_not_round_trip:
  "numberOfLeadingZeros64 128 = 58 \<and>
   (case writeUtf8Integer 128 newBitOutputStream of
      Inl e \<Rightarrow> Inl e
    | Inr s \<Rightarrow> (case flush s of Inl e \<Rightarrow> Inl e | Inr s' \<Rightarrow> Inr (out s'))) = Inr [0x80] \<and>
   readUtf8Integer (newByteArrayFlacInput [0x80])
     = Inl (DataFormatException ''Invalid UTF-8 coded number'')"
  by code_simp

section \<open>The fast path of the Rice decoder on unwritten table entries\<close>

lemma riceTables_13:
  "riceConsumedTable freshC 13 = map freshC [0..<8192]"
  "riceValueTable freshV 13 = map freshV [0..<8192]"
  by (simp_all add: riceConsumedTable_def riceValueTable_def riceFillFrom.simps riceNumBits_def
      RICE_DECODING_TABLE_BITS_def)

lemma riceFastSymbol_13:
  "riceFastSymbol (riceConsumedTable freshC 13) (riceValueTable freshV 13) s =
     (let k = unat ((ucast (drop_bit (bitBufferLen s - RICE_DECODING_TABLE_BITS) (bitBuffer s)) :: 32 word)
                      AND RICE_DECODING_TABLE_MASK)
      in if freshC k = 0 then Inr None
         else Inr (Some (scast (freshV k),
                s\<lparr>bitBufferLen := (bitBufferLen s + 256 - unat (freshC k)) mod 256\<rparr>)))"
proof -
  define e where "e = (ucast (drop_bit (bitBufferLen s - RICE_DECODING_TABLE_BITS) (bitBuffer s)) :: 32 word)
                        AND RICE_DECODING_TABLE_MASK"
  have si: "sint e = int (unat e)" and u: "unat e < 8192"
    unfolding e_def by (rule extractedBits_index)+
  have g: "0 \<le> int (unat e)" "int (unat e) < int 8192" using u by linarith+
  have g1: "arrayGet (map freshC [0..<8192]) (sint e) = Inr (freshC (unat e))"
    unfolding arrayGet_def si using g u by (simp only: length_map length_upt nat_int) simp
  have g2: "arrayGet (map freshV [0..<8192]) (sint e) = Inr (freshV (unat e))"
    unfolding arrayGet_def si using g u by (simp only: length_map length_upt nat_int) simp
  show ?thesis
    unfolding riceFastSymbol_def riceTables_13 e_def[symmetric] Let_def g1 g2 by simp
qed

lemma arrayGet_RICE_DECODING_TABLES_13:
  "arrayGet (RICE_DECODING_CONSUMED_TABLES freshC) 13 = Inr (riceConsumedTable (freshC 13) 13)"
  "arrayGet (RICE_DECODING_VALUE_TABLES freshV) 13 = Inr (riceValueTable (freshV 13) 13)"
  by (simp_all add: arrayGet_def RICE_DECODING_CONSUMED_TABLES_def RICE_DECODING_VALUE_TABLES_def
      RICE_DECODING_TABLE_LEN_def)

lemma riceFastChunk_13_garbage:
  "\<exists>s'. riceFastChunk (riceConsumedTable (\<lambda>k. 1) 13) (riceValueTable (\<lambda>k. 0x01010101) 13) 0
           [0, 0, 0, 0, 0] 1 s
         = Inr (True, [0, 0x01010101, 0x01010101, 0x01010101, 0x01010101], 5, s')"
  by (simp add: riceFastChunk.simps riceFastSymbol_13 arraySet_def RICE_DECODING_CHUNK_def Let_def)

lemma riceSlowSymbol_first:
  "(case riceSlowSymbol 13 (newByteArrayFlacInput [0x80, 0x02, 0, 0x08, 0, 0x20, 0, 0x80, 0, 0]) of
      Inl e \<Rightarrow> False
    | Inr (v, s1) \<Rightarrow>
        v = 0 \<and> rinv s1 \<and> bitBufferLen s1 < 52 \<and> byteBufferIndex s1 \<le> byteBufferLen s1 - 8)"
  by code_simp

lemma riceSlowLoop_five:
  "(case riceSlowLoop 13 [0, 0, 0, 0, 0] 0 5
           (newByteArrayFlacInput [0x80, 0x02, 0, 0x08, 0, 0x20, 0, 0x80, 0, 0]) of
      Inl e \<Rightarrow> None
    | Inr (r, s) \<Rightarrow> Some r) = Some [0, 0, 0, 0, 0]"
  by code_simp

text \<open>
  Claim C1, at its failing input. The arrays of the tables are not initialised, and for
  \<open>param = 13\<close> the loops write none of their elements, so the fast path decodes from what the
  allocation left. The input is the parameter 13 and the ten bytes
  \<open>80 02 00 08 00 20 00 80 00 00\<close>, five code words \<open>1 0000000000000\<close> of the value \<open>0\<close>; the
  allocation left the byte \<open>0x01\<close> everywhere, which is \<open>1\<close> in an element of the table of
  consumed bits and \<open>0x01010101\<close> in an element of the table of values. The first value is
  decoded by the slow path, the byte buffer being empty; then \<^verbatim>\<open>fillBitBuffer\<close> loads the bit
  buffer and the fast path delivers four times the value of the table, consuming one bit for
  each. The slow path alone decodes \<open>0\<close> five times. (With arrays full of zeros the fast path
  agrees with the slow one: lemma \<open>riceFastSymbol_slow\<close>.)
\<close>

theorem readRiceSignedInts_unwritten_table_entries:
  "(\<exists>s'. readRiceSignedInts (\<lambda>p k. 1) (\<lambda>p k. 0x01010101) 13 [0, 0, 0, 0, 0] 0 5
            (newByteArrayFlacInput [0x80, 0x02, 0, 0x08, 0, 0x20, 0, 0x80, 0, 0])
          = Inr ([0, 0x01010101, 0x01010101, 0x01010101, 0x01010101], s')) \<and>
   (\<exists>s'. riceSlowLoop 13 [0, 0, 0, 0, 0] 0 5
            (newByteArrayFlacInput [0x80, 0x02, 0, 0x08, 0, 0x20, 0, 0x80, 0, 0])
          = Inr ([0, 0, 0, 0, 0], s'))"
proof

  define s0 where "s0 = newByteArrayFlacInput [0x80, 0x02, 0, 0x08, 0, 0x20, 0, 0x80, 0, 0]"
  define cT where "cT = riceConsumedTable (\<lambda>k. 1) 13"
  define vT where "vT = riceValueTable (\<lambda>k. 0x01010101) 13"
  from riceSlowSymbol_first obtain s1 where
    s1: "riceSlowSymbol 13 s0 = Inr (0, s1)" "rinv s1" "bitBufferLen s1 < 52"
        "byteBufferIndex s1 \<le> byteBufferLen s1 - 8"
    unfolding s0_def[symmetric] by (auto split: sum.splits)
  from fillBitBuffer_ok[OF s1(2,3,4)] obtain s2 where s2: "fillBitBuffer s1 = Inr s2" by blast
  from riceFastChunk_13_garbage[of s2] obtain s3 where
    s3: "riceFastChunk cT vT 0 [0, 0, 0, 0, 0] 1 s2
           = Inr (True, [0, 0x01010101, 0x01010101, 0x01010101, 0x01010101], 5, s3)"
    unfolding cT_def vT_def by blast
  have l4: "riceLoop True 13 cT vT [0, 0x01010101, 0x01010101, 0x01010101, 0x01010101] 5 5 s3
              = Inr ([0, 0x01010101, 0x01010101, 0x01010101, 0x01010101], s3)"
    by (subst riceLoop.simps, subst riceLoop.simps) (simp add: RICE_DECODING_CHUNK_def)
  have l3: "riceLoop True 13 cT vT [0, 0, 0, 0, 0] 1 5 s1
              = Inr ([0, 0x01010101, 0x01010101, 0x01010101, 0x01010101], s3)"
    using s1(3,4) s2 s3 l4
    by (subst riceLoop.simps) (simp add: RICE_DECODING_CHUNK_def RICE_DECODING_TABLE_BITS_def)
  have l2: "riceLoop False 13 cT vT [0, 0, 0, 0, 0] 0 5 s0
              = Inr ([0, 0x01010101, 0x01010101, 0x01010101, 0x01010101], s3)"
    using s1(1) l3 by (subst riceLoop.simps) (simp add: arraySet_def)
  have l1: "riceLoop True 13 cT vT [0, 0, 0, 0, 0] 0 5 s0
              = Inr ([0, 0x01010101, 0x01010101, 0x01010101, 0x01010101], s3)"
    using l2
    by (subst riceLoop.simps)
       (simp add: RICE_DECODING_CHUNK_def RICE_DECODING_TABLE_BITS_def s0_def newByteArrayFlacInput_def)
  show "\<exists>s'. readRiceSignedInts (\<lambda>p k. 1) (\<lambda>p k. 0x01010101) 13 [0, 0, 0, 0, 0] 0 5
            (newByteArrayFlacInput [0x80, 0x02, 0, 0x08, 0, 0x20, 0, 0x80, 0, 0])
          = Inr ([0, 0x01010101, 0x01010101, 0x01010101, 0x01010101], s')"
    unfolding readRiceSignedInts_def arrayGet_RICE_DECODING_TABLES_13 s0_def[symmetric]
    using l1 by (simp add: cT_def vT_def)
next
  show "\<exists>s'. riceSlowLoop 13 [0, 0, 0, 0, 0] 0 5
            (newByteArrayFlacInput [0x80, 0x02, 0, 0x08, 0, 0x20, 0, 0x80, 0, 0])
          = Inr ([0, 0, 0, 0, 0], s')"
    using riceSlowLoop_five by (auto split: sum.splits)
qed


end
